theory Spec2Isabelle
  imports Complex_Main "HOL-Library.AList"
begin

section \<open>Strings and numbers of the host language\<close>

text \<open>
  A string is a list of code units; \<open>length\<close> is the source's \<open>.length\<close>. The
  section sign that starts a formatting code is the single code unit 0xA7. Numbers
  are integers: every number the modelled code computes with is a length, a slot
  index, a stack count or a level.
\<close>

definition sect :: char where
  "sect = CHR 0xA7"

text \<open>\<open>Number.prototype.toString\<close> on an integer: decimal digits, a minus sign first.\<close>

definition digit :: "nat \<Rightarrow> char" where
  "digit d = char_of (d + 48)"

fun digits :: "nat \<Rightarrow> string" where
  "digits n = (if 10 \<le> n then digits (n div 10) @ [digit (n mod 10)] else [digit n])"

declare digits.simps [simp del]

definition toString :: "int \<Rightarrow> string" where
  "toString i = (if i < 0 then CHR ''-'' # digits (nat (- i)) else digits (nat i))"

definition padStart :: "nat \<Rightarrow> char \<Rightarrow> string \<Rightarrow> string" where
  "padStart n c s = replicate (n - length s) c @ s"

text \<open>\<open>Array.prototype.join\<close>.\<close>

fun join :: "string \<Rightarrow> string list \<Rightarrow> string" where
  "join sep [] = []"
| "join sep [x] = x"
| "join sep (x # y # ys) = x @ sep @ join sep (y # ys)"

text \<open>An optional argument or field with its default.\<close>

definition dflt :: "'a \<Rightarrow> 'a option \<Rightarrow> 'a" where
  "dflt d v = (case v of None \<Rightarrow> d | Some x \<Rightarrow> x)"


section \<open>ChestFormData\<close>

datatype ChestSize =
  SINGLE | SMALL | DOUBLE | LARGE
  | SIZE_5 | SIZE_9 | SIZE_18 | SIZE_27 | SIZE_36 | SIZE_45 | SIZE_54

definition chestTitle :: "char \<Rightarrow> char \<Rightarrow> string" where
  "chestTitle a b =
     [sect, CHR ''c'', sect, CHR ''h'', sect, CHR ''e'', sect, CHR ''s'', sect, CHR ''t'',
      sect, a, sect, b, sect, CHR ''r'']"

fun sizes :: "ChestSize \<Rightarrow> (string \<times> nat) option" where
  "sizes SINGLE = Some (chestTitle CHR ''2'' CHR ''7'', 27)"
| "sizes SMALL = Some (chestTitle CHR ''2'' CHR ''7'', 27)"
| "sizes DOUBLE = Some (chestTitle CHR ''5'' CHR ''4'', 54)"
| "sizes LARGE = Some (chestTitle CHR ''5'' CHR ''4'', 54)"
| "sizes SIZE_5 = Some (chestTitle CHR ''0'' CHR ''5'', 5)"
| "sizes SIZE_9 = Some (chestTitle CHR ''0'' CHR ''9'', 9)"
| "sizes SIZE_18 = Some (chestTitle CHR ''1'' CHR ''8'', 18)"
| "sizes SIZE_27 = Some (chestTitle CHR ''2'' CHR ''7'', 27)"
| "sizes SIZE_36 = Some (chestTitle CHR ''3'' CHR ''6'', 36)"
| "sizes SIZE_45 = Some (chestTitle CHR ''4'' CHR ''5'', 45)"
| "sizes SIZE_54 = Some (chestTitle CHR ''5'' CHR ''4'', 54)"

text \<open>
  The icon of a button is a number computed from a resolved id, or the texture
  string itself. An element of \<open>buttonArray\<close> is a pair of the button text and an
  icon that may be undefined; \<open>None\<close> as the element itself is a hole of the
  JavaScript array, which an assignment beyond its length leaves behind.
\<close>

datatype icon = IconNumber int | IconPath string

type_synonym button = "string \<times> icon option"

record ChestFormData =
  titleText :: string
  buttonArray :: "button option list"
  slotCount :: nat

definition ChestFormData_new :: "ChestSize \<Rightarrow> ChestFormData" where
  "ChestFormData_new sz =
     (let (t, slots) = dflt (chestTitle CHR ''2'' CHR ''7'', 27) (sizes sz)
      in \<lparr>titleText = t,
          buttonArray = replicate slots (Some ([], None)),
          slotCount = slots\<rparr>)"

definition title :: "string \<Rightarrow> ChestFormData \<Rightarrow> ChestFormData" where
  "title text f = f\<lparr>titleText := titleText f @ text\<rparr>"

text \<open>
  The two id tables live in \<open>typeIds.js\<close>, outside the modelled file; they are
  parameters.
\<close>

record TypeIds =
  typeIdToDataId :: "string \<rightharpoonup> int"
  typeIdToID :: "string \<rightharpoonup> int"

definition number_of_1_16_100_items :: int where
  "number_of_1_16_100_items = 0"

text \<open>\<open>a[i] = v\<close> on a JavaScript array: beyond the length the array grows, with holes.\<close>

definition array_set :: "'a option list \<Rightarrow> nat \<Rightarrow> 'a \<Rightarrow> 'a option list" where
  "array_set xs i v =
     (if i < length xs then xs[i := Some v]
      else xs @ replicate (i - length xs) None @ [Some v])"

text \<open>
  \<open>button\<close>. The slot is a natural number here: \<open>pattern\<close> passes nothing else, and
  the bounds check of the source is commented out, so any index is written.
\<close>

definition button ::
  "TypeIds \<Rightarrow> nat \<Rightarrow> string \<Rightarrow> string list \<Rightarrow> string \<Rightarrow> int \<Rightarrow> bool \<Rightarrow> ChestFormData \<Rightarrow> ChestFormData"
where
  "button ids slot itemName itemDesc texture stackAmount enchanted f =
     (let ID = (case typeIdToDataId ids texture of
                  Some i \<Rightarrow> Some i
                | None \<Rightarrow> typeIdToID ids texture);
          itemText = ''stack#''
            @ padStart 2 CHR ''0'' (toString (min (max stackAmount 1) 99))
            @ [sect, CHR ''r''] @ itemName @ [sect, CHR ''r'']
            @ (if itemDesc \<noteq> []
               then [CHR 0x0A, sect, CHR ''r''] @ join [CHR 0x0A, sect, CHR ''r''] itemDesc
               else []);
          iconPath = (case ID of
                        Some i \<Rightarrow>
                          IconNumber ((i + (if i < 260 then 0 else number_of_1_16_100_items)) * 65536
                                      + (if enchanted then 32768 else 0))
                      | None \<Rightarrow> IconPath texture)
      in f\<lparr>buttonArray := array_set (buttonArray f) slot (itemText, Some iconPath)\<rparr>)"

record PatternData =
  itemName :: "string option"
  itemDesc :: "string list option"
  stackAmount :: "int option"
  enchanted :: "bool option"
  texture :: string

text \<open>
  \<open>pattern\<close>: the body of the inner loop, the inner loop over the characters of one
  row from column \<open>colIndex\<close> on, and the outer loop over the rows from \<open>rowIndex\<close>
  on. The key is looked up with the one-character string \<open>row[colIndex]\<close>.
\<close>

definition pattern_cell ::
  "TypeIds \<Rightarrow> (string \<rightharpoonup> PatternData) \<Rightarrow> nat \<Rightarrow> nat \<Rightarrow> char \<Rightarrow> ChestFormData \<Rightarrow> ChestFormData"
where
  "pattern_cell ids key rowIndex colIndex c f =
     (let data = key [c];
          slot = colIndex + rowIndex * 9
      in case data of
           Some d \<Rightarrow>
             if slot < slotCount f
             then button ids slot (dflt [] (itemName d)) (dflt [] (itemDesc d)) (texture d)
                    (dflt 1 (stackAmount d)) (dflt False (enchanted d)) f
             else f
         | None \<Rightarrow> f)"

fun pattern_row ::
  "TypeIds \<Rightarrow> (string \<rightharpoonup> PatternData) \<Rightarrow> nat \<Rightarrow> string \<Rightarrow> nat \<Rightarrow> ChestFormData \<Rightarrow> ChestFormData"
where
  "pattern_row ids key rowIndex [] colIndex f = f"
| "pattern_row ids key rowIndex (c # cs) colIndex f =
     pattern_row ids key rowIndex cs (Suc colIndex) (pattern_cell ids key rowIndex colIndex c f)"

fun pattern_rows ::
  "TypeIds \<Rightarrow> (string \<rightharpoonup> PatternData) \<Rightarrow> string list \<Rightarrow> nat \<Rightarrow> ChestFormData \<Rightarrow> ChestFormData"
where
  "pattern_rows ids key [] rowIndex f = f"
| "pattern_rows ids key (row # rows) rowIndex f =
     pattern_rows ids key rows (Suc rowIndex) (pattern_row ids key rowIndex row 0 f)"

definition pattern ::
  "TypeIds \<Rightarrow> string list \<Rightarrow> (string \<rightharpoonup> PatternData) \<Rightarrow> ChestFormData \<Rightarrow> ChestFormData"
where
  "pattern ids p key f = pattern_rows ids key p 0 f"

text \<open>A slot is named by the pattern when some position of the pattern maps to it
  and the character there is in the key.\<close>

definition keyed_position :: "string list \<Rightarrow> (string \<rightharpoonup> PatternData) \<Rightarrow> nat \<Rightarrow> bool" where
  "keyed_position p key i \<longleftrightarrow>
     (\<exists>r c. r < length p \<and> c < length (p ! r) \<and> i = c + r * 9 \<and> key [p ! r ! c] \<noteq> None)"

definition noIds :: TypeIds where
  "noIds = \<lparr>typeIdToDataId = Map.empty, typeIdToID = Map.empty\<rparr>"

definition wrapPattern :: "string list" where
  "wrapPattern = [''         x'', '' '']"

definition wrapKey :: "string \<rightharpoonup> PatternData" where
  "wrapKey = [''x'' \<mapsto> \<lparr>itemName = Some ''Gem'', itemDesc = None, stackAmount = None,
                         enchanted = None, texture = ''textures/items/gem''\<rparr>]"


section \<open>queueForm\<close>

datatype FormCancelationReason = UserBusy | UserClosed

record ActionFormResponse =
  canceled :: bool
  cancelationReason :: "FormCancelationReason option"
  selection :: "nat option"

text \<open>
  A promise as the code that waits for it sees it: fulfilled with a value, rejected
  with an error, or never settled.
\<close>

datatype 'a promise = Fulfilled 'a | Rejected string | Pending

text \<open>
  A call of \<open>form.show(player)\<close> returns a promise, or throws before it returns
  one. The host is the list of what the successive calls do; when the list is used
  up the next call returns a promise that stays pending.
\<close>

datatype 'a shown = Returns "'a promise" | Throws string

text \<open>
  What can be observed of a run: each call of \<open>form.show\<close>, each call of the
  callback, each \<open>console.error\<close>. The callback returns \<open>None\<close>, or \<open>Some err\<close>
  when it throws \<open>err\<close>.
\<close>

datatype 'f event = Show 'f | Callback ActionFormResponse | ConsoleError string

text \<open>
  How a call of \<open>queueForm\<close> ends for its caller: it throws, or it returns, having
  built the promise chain \<open>form.show(player).then(...).catch(...)\<close>, of which the
  state is kept.
\<close>

datatype outcome = Thrown string | Chain "unit promise"

text \<open>
  \<open>queueForm\<close> gives the events in their order and the outcome. The call of
  \<open>form.show\<close> stands in no \<open>try\<close>: what it throws leaves \<open>queueForm\<close> before any
  handler is attached. The \<open>then\<close> handler runs on fulfilment; an error thrown in it
  goes, like a rejection of \<open>show\<close>, to the \<open>catch\<close> handler, which logs it and
  returns. The recursive call stands in the \<open>then\<close> handler, so what it throws is
  logged; the promise it builds is not awaited.
\<close>

fun queueForm ::
  "'f \<Rightarrow> (ActionFormResponse \<Rightarrow> string option) \<Rightarrow> ActionFormResponse shown list
     \<Rightarrow> 'f event list \<times> outcome"
where
  "queueForm form callback [] = ([Show form], Chain Pending)"
| "queueForm form callback (Throws err # host) = ([Show form], Thrown err)"
| "queueForm form callback (Returns Pending # host) = ([Show form], Chain Pending)"
| "queueForm form callback (Returns (Rejected err) # host) =
     ([Show form, ConsoleError err], Chain (Fulfilled ()))"
| "queueForm form callback (Returns (Fulfilled response) # host) =
     (if canceled response then
        (if cancelationReason response = Some UserBusy
         then (case queueForm form callback host of
                 (events, Thrown err) \<Rightarrow>
                   (Show form # events @ [ConsoleError err], Chain (Fulfilled ()))
               | (events, Chain p) \<Rightarrow> (Show form # events, Chain (Fulfilled ())))
         else ([Show form], Chain (Fulfilled ())))
      else
        (case callback response of
           None \<Rightarrow> ([Show form, Callback response], Chain (Fulfilled ()))
         | Some err \<Rightarrow>
             ([Show form, Callback response, ConsoleError err], Chain (Fulfilled ()))))"









text \<open>A busy cancellation, and a callback that returns.\<close>

definition busyResponse :: ActionFormResponse where
  "busyResponse = \<lparr>canceled = True, cancelationReason = Some UserBusy, selection = None\<rparr>"

definition quiet :: "ActionFormResponse \<Rightarrow> string option" where
  "quiet response = None"

section \<open>Values and the JSON helpers\<close>

text \<open>
  A JavaScript value that JSON can carry. An object is the list of its properties
  in the order \<open>for ... in\<close> and \<open>JSON.stringify\<close> go through them. An argument of
  type \<open>any\<close> is a \<open>json option\<close>, \<open>None\<close> being \<open>undefined\<close>.
\<close>

datatype json =
  JNull | JBool bool | JNum int | JStr string | JArr "json list" | JObj "(string \<times> json) list"

subsection \<open>The properties of an object\<close>

text \<open>
  JavaScript lists the keys that are array indices first, by their number, and the
  other keys after them in the order in which they were created. An array index
  is the decimal text, with no leading zero, of a number below \<open>2^32 - 1\<close>.
\<close>

definition isDigit :: "char \<Rightarrow> bool" where
  "isDigit c \<longleftrightarrow> 48 \<le> (of_char c :: nat) \<and> (of_char c :: nat) \<le> 57"

definition digitsValue :: "string \<Rightarrow> int" where
  "digitsValue ds = foldl (\<lambda>a c. 10 * a + (of_char c - 48)) 0 ds"

definition isArrayIndex :: "string \<Rightarrow> bool" where
  "isArrayIndex k \<longleftrightarrow>
     k \<noteq> [] \<and> list_all isDigit k \<and> (hd k = CHR ''0'') = (k = ''0'')
     \<and> digitsValue k < 4294967295"

text \<open>\<open>obj[k] = v\<close>: the value of an existing key is replaced where it stands, a new
  array index goes after the indices that are not larger, any other new key to the
  end. \<open>delete obj[k]\<close> is \<open>AList.delete\<close>.\<close>

fun insertIndex :: "string \<Rightarrow> 'v \<Rightarrow> (string \<times> 'v) list \<Rightarrow> (string \<times> 'v) list" where
  "insertIndex k v [] = [(k, v)]"
| "insertIndex k v (p # ps) =
     (if isArrayIndex (fst p) \<and> digitsValue (fst p) \<le> digitsValue k
      then p # insertIndex k v ps
      else (k, v) # p # ps)"

definition setProperty :: "string \<Rightarrow> 'v \<Rightarrow> (string \<times> 'v) list \<Rightarrow> (string \<times> 'v) list" where
  "setProperty k v obj =
     (if k \<in> set (map fst obj) then AList.update k v obj
      else if isArrayIndex k then insertIndex k v obj
      else obj @ [(k, v)])"

text \<open>
  The keys of an object of the program are distinct and in JavaScript's order:
  before a key that is an array index stand only array indices that are not
  larger.
\<close>

fun jsOrdered :: "string list \<Rightarrow> bool" where
  "jsOrdered [] = True"
| "jsOrdered (k # ks) =
     (list_all (\<lambda>k'. \<not> isArrayIndex k' \<or> (isArrayIndex k \<and> digitsValue k \<le> digitsValue k')) ks
      \<and> jsOrdered ks)"

definition objectKeys :: "string list \<Rightarrow> bool" where
  "objectKeys ks \<longleftrightarrow> distinct ks \<and> jsOrdered ks"

fun wellFormed :: "json \<Rightarrow> bool" where
  "wellFormed (JArr vs) = list_all wellFormed vs"
| "wellFormed (JObj kvs) = (objectKeys (map fst kvs) \<and> list_all (\<lambda>kv. wellFormed (snd kv)) kvs)"
| "wellFormed _ = True"

text \<open>\<open>typeof value === "object"\<close>: true of \<open>null\<close>, of arrays and of objects.\<close>

fun typeofObject :: "json \<Rightarrow> bool" where
  "typeofObject JNull = True"
| "typeofObject (JArr vs) = True"
| "typeofObject (JObj kvs) = True"
| "typeofObject _ = False"

text \<open>The operand of \<open>||\<close> counts as false: \<open>undefined\<close>, \<open>null\<close>, \<open>false\<close>, \<open>0\<close>, \<open>""\<close>.\<close>

fun falsy :: "json option \<Rightarrow> bool" where
  "falsy None = True"
| "falsy (Some JNull) = True"
| "falsy (Some (JBool b)) = (\<not> b)"
| "falsy (Some (JNum n)) = (n = 0)"
| "falsy (Some (JStr s)) = (s = [])"
| "falsy (Some _) = False"

text \<open>
  What the host keeps in a dynamic property: a string, a number or a boolean.
\<close>

datatype prim = PString string | PNumber int | PBoolean bool

subsection \<open>Encoding\<close>

text \<open>
  Modelled from the spec: the encoder and the decoder of \<open>functions/json\<close> are not
  among the sources; the spec has them encode and decode JSON, which is taken here
  as \<open>JSON.stringify\<close> and \<open>JSON.parse\<close> do it.
  The text of a value is the one of \<open>JSON.stringify\<close>, which has no white space:
  \<open>null\<close>, \<open>true\<close>, \<open>false\<close>, decimal integers, strings between double quotes,
  arrays in brackets and objects in braces, with commas between the elements and a
  colon after each key. In a string the double quote and the backslash are escaped
  by a backslash, the code units 8, 9, 10, 12 and 13 are written as a backslash and
  the letter \<open>b\<close>, \<open>t\<close>, \<open>n\<close>, \<open>f\<close> or \<open>r\<close>, the other code units below 32 as a
  backslash, \<open>u00\<close> and two lower-case hexadecimal digits, and every other code unit
  stands for itself.
\<close>

definition dquote :: char where
  "dquote = CHR 0x22"

definition backslash :: char where
  "backslash = CHR 0x5C"

definition hexDigit :: "nat \<Rightarrow> char" where
  "hexDigit n = (if n < 10 then char_of (48 + n) else char_of (87 + n))"

definition escapeChar :: "char \<Rightarrow> string" where
  "escapeChar c =
     (if c = dquote then [backslash, dquote]
      else if c = backslash then [backslash, backslash]
      else if c = CHR 0x08 then [backslash, CHR ''b'']
      else if c = CHR 0x09 then [backslash, CHR ''t'']
      else if c = CHR 0x0A then [backslash, CHR ''n'']
      else if c = CHR 0x0C then [backslash, CHR ''f'']
      else if c = CHR 0x0D then [backslash, CHR ''r'']
      else if (of_char c :: nat) < 32 then
        [backslash, CHR ''u'', CHR ''0'', CHR ''0'',
         hexDigit ((of_char c :: nat) div 16), hexDigit ((of_char c :: nat) mod 16)]
      else [c])"

fun escape :: "string \<Rightarrow> string" where
  "escape [] = []"
| "escape (c # cs) = escapeChar c @ escape cs"

definition quote :: "string \<Rightarrow> string" where
  "quote s = dquote # escape s @ [dquote]"

text \<open>
  Modelled from the spec: \<open>safeJsonStringify\<close> of \<open>functions/json\<close> is not among the
  sources. The spec has non-primitive values "transparently JSON-encoded on write",
  by an encoder that "must never throw on success path".
\<close>

fun safeJsonStringify :: "json \<Rightarrow> string" where
  "safeJsonStringify JNull = ''null''"
| "safeJsonStringify (JBool b) = (if b then ''true'' else ''false'')"
| "safeJsonStringify (JNum i) = toString i"
| "safeJsonStringify (JStr s) = quote s"
| "safeJsonStringify (JArr vs) = ''['' @ join '','' (map safeJsonStringify vs) @ '']''"
| "safeJsonStringify (JObj kvs) =
     ''{'' @ join '','' (map (\<lambda>kv. quote (fst kv) @ '':'' @ safeJsonStringify (snd kv)) kvs) @ ''}''"

subsection \<open>Decoding\<close>

text \<open>
  The decoder reads every JSON text: white space (space, tab, line feed, carriage
  return) around the values and the punctuation, numbers with a fraction and an
  exponent, and in a string a backslash before a double quote, a backslash, a
  slash, one of the letters \<open>b\<close>, \<open>f\<close>, \<open>n\<close>, \<open>r\<close>, \<open>t\<close>, or \<open>u\<close> and four
  hexadecimal digits; a code unit below 32 must be escaped. What it reads comes
  with a mark. The mark is \<open>False\<close> where the text
  is JSON but writes a value that the values above do not carry: a number that is
  not an integer, or a code unit above 0xFF in a string. The text is read on to
  its end all the same, so that a text that is not JSON is told from it. An
  integer is kept as it is written; JavaScript rounds it to the nearest double,
  which changes it only from \<open>2^53\<close> on, and the model, with no floating point,
  does not follow that.
\<close>

definition isWhite :: "char \<Rightarrow> bool" where
  "isWhite c \<longleftrightarrow> c = CHR 0x20 \<or> c = CHR 0x09 \<or> c = CHR 0x0A \<or> c = CHR 0x0D"

definition skipWhite :: "string \<Rightarrow> string" where
  "skipWhite s = dropWhile isWhite s"

text \<open>
  A JSON number: an optional minus sign, digits with no leading zero, then
  optionally a point and digits, then optionally \<open>e\<close> or \<open>E\<close>, a sign and digits.
  Its value is the digits of both parts as one integer, times the power of ten that
  the exponent less the number of fraction digits gives.
\<close>

definition parse_fraction :: "string \<Rightarrow> (string \<times> string) option" where
  "parse_fraction s =
     (case s of
        [] \<Rightarrow> Some ([], s)
      | c # r \<Rightarrow>
          if c = CHR ''.''
          then (if takeWhile isDigit r = [] then None
                else Some (takeWhile isDigit r, dropWhile isDigit r))
          else Some ([], s))"

definition parse_exponent :: "string \<Rightarrow> (int \<times> string) option" where
  "parse_exponent s =
     (case s of
        [] \<Rightarrow> Some (0, s)
      | c # r \<Rightarrow>
          if c = CHR ''e'' \<or> c = CHR ''E''
          then (let negative = (case r of [] \<Rightarrow> False | d # t \<Rightarrow> d = CHR ''-'');
                    signed = (case r of [] \<Rightarrow> False | d # t \<Rightarrow> d = CHR ''-'' \<or> d = CHR ''+'');
                    r' = (if signed then tl r else r);
                    ds = takeWhile isDigit r'
                in if ds = [] then None
                   else Some (if negative then - digitsValue ds else digitsValue ds,
                              dropWhile isDigit r'))
          else Some (0, s))"

text \<open>\<open>m\<close> times ten to the power \<open>e\<close>, marked \<open>False\<close> when it is not an integer.\<close>

definition scaled :: "int \<Rightarrow> int \<Rightarrow> int \<times> bool" where
  "scaled m e =
     (if 0 \<le> e then (m * 10 ^ nat e, True)
      else if m mod 10 ^ nat (- e) = 0 then (m div 10 ^ nat (- e), True)
      else (0, False))"

definition parse_number :: "string \<Rightarrow> (int \<times> bool \<times> string) option" where
  "parse_number s =
     (let negative = (case s of [] \<Rightarrow> False | c # r \<Rightarrow> c = CHR ''-'');
          s' = (if negative then tl s else s);
          ds = takeWhile isDigit s'
      in if ds = [] \<or> (1 < length ds \<and> hd ds = CHR ''0'') then None
         else case parse_fraction (dropWhile isDigit s') of
                None \<Rightarrow> None
              | Some (fs, r) \<Rightarrow>
                  (case parse_exponent r of
                     None \<Rightarrow> None
                   | Some (e, r') \<Rightarrow>
                       (case scaled (digitsValue (ds @ fs)) (e - int (length fs)) of
                          (v, ok) \<Rightarrow> Some (if negative then - v else v, ok, r'))))"

text \<open>The value of a hexadecimal digit, of either case, and the code unit that four
  of them write.\<close>

definition hexValue :: "char \<Rightarrow> nat option" where
  "hexValue c =
     (let n = (of_char c :: nat)
      in if 48 \<le> n \<and> n \<le> 57 then Some (n - 48)
         else if 97 \<le> n \<and> n \<le> 102 then Some (n - 87)
         else if 65 \<le> n \<and> n \<le> 70 then Some (n - 55)
         else None)"

definition codeUnit :: "char \<Rightarrow> char \<Rightarrow> char \<Rightarrow> char \<Rightarrow> nat option" where
  "codeUnit a b c d =
     (case hexValue a of
        None \<Rightarrow> None
      | Some w \<Rightarrow>
          (case hexValue b of
             None \<Rightarrow> None
           | Some x \<Rightarrow>
               (case hexValue c of
                  None \<Rightarrow> None
                | Some y \<Rightarrow>
                    (case hexValue d of
                       None \<Rightarrow> None
                     | Some z \<Rightarrow> Some (((w * 16 + x) * 16 + y) * 16 + z)))))"

text \<open>The character that stands after a backslash, \<open>u\<close> apart.\<close>

definition unescape :: "char \<Rightarrow> char option" where
  "unescape e =
     (if e = dquote then Some dquote
      else if e = backslash then Some backslash
      else if e = CHR ''/'' then Some CHR ''/''
      else if e = CHR ''b'' then Some (CHR 0x08)
      else if e = CHR ''t'' then Some (CHR 0x09)
      else if e = CHR ''n'' then Some (CHR 0x0A)
      else if e = CHR ''f'' then Some (CHR 0x0C)
      else if e = CHR ''r'' then Some (CHR 0x0D)
      else None)"

definition consChar ::
  "char \<Rightarrow> bool \<Rightarrow> (string \<times> bool \<times> string) option \<Rightarrow> (string \<times> bool \<times> string) option"
where
  "consChar c ok rest = map_option (\<lambda>(s, ok', r). (c # s, ok \<and> ok', r)) rest"

text \<open>The characters of a string after its opening quote, to the closing one.\<close>

fun parse_string :: "string \<Rightarrow> (string \<times> bool \<times> string) option" where
  "parse_string [] = None"
| "parse_string (c # cs) =
     (if c = dquote then Some ([], True, cs)
      else if c = backslash then
        (case cs of
           [] \<Rightarrow> None
         | e # r \<Rightarrow>
             if e = CHR ''u'' then
               (case r of
                  h1 # h2 # h3 # h4 # r' \<Rightarrow>
                    (case codeUnit h1 h2 h3 h4 of
                       None \<Rightarrow> None
                     | Some n \<Rightarrow>
                         if n < 256 then consChar (char_of n) True (parse_string r')
                         else consChar CHR ''?'' False (parse_string r'))
                | _ \<Rightarrow> None)
             else (case unescape e of
                     None \<Rightarrow> None
                   | Some c' \<Rightarrow> consChar c' True (parse_string r)))
      else if (of_char c :: nat) < 32 then None
      else consChar c True (parse_string cs))"

definition strip_prefix :: "string \<Rightarrow> string \<Rightarrow> string option" where
  "strip_prefix p s = (if take (length p) s = p then Some (drop (length p) s) else None)"

text \<open>
  Modelled from the spec: the decoder behind \<open>safeJsonParser\<close>, which is not among
  the sources. Its first argument bounds the depth of the calls; each call reads at
  least one character, so the length of the text is always enough: a larger bound
  gives the same result. \<open>parse_elems\<close>
  and \<open>parse_members\<close> stand after an element, at a comma or at the closing
  bracket, with the elements read so far and their mark. The properties of an
  object are set one after the other, as \<open>JSON.parse\<close> does.
\<close>

function (sequential) parse_value :: "nat \<Rightarrow> string \<Rightarrow> (json \<times> bool \<times> string) option"
  and parse_elems ::
    "nat \<Rightarrow> json list \<Rightarrow> bool \<Rightarrow> string \<Rightarrow> (json list \<times> bool \<times> string) option"
  and parse_members ::
    "nat \<Rightarrow> (string \<times> json) list \<Rightarrow> bool \<Rightarrow> string
       \<Rightarrow> ((string \<times> json) list \<times> bool \<times> string) option"
  and parse_member :: "nat \<Rightarrow> string \<Rightarrow> ((string \<times> json) \<times> bool \<times> string) option"
where
  "parse_value 0 s = None"
| "parse_value (Suc n) s =
     (case skipWhite s of
        [] \<Rightarrow> None
      | c # r \<Rightarrow>
          if c = CHR ''n'' then map_option (\<lambda>r'. (JNull, True, r')) (strip_prefix ''ull'' r)
          else if c = CHR ''t'' then
            map_option (\<lambda>r'. (JBool True, True, r')) (strip_prefix ''rue'' r)
          else if c = CHR ''f'' then
            map_option (\<lambda>r'. (JBool False, True, r')) (strip_prefix ''alse'' r)
          else if c = dquote then
            map_option (\<lambda>(s, ok, r'). (JStr s, ok, r')) (parse_string r)
          else if c = CHR ''['' then
            (case skipWhite r of
               [] \<Rightarrow> None
             | d # r' \<Rightarrow>
                 if d = CHR '']'' then Some (JArr [], True, r')
                 else (case parse_value n r of
                         None \<Rightarrow> None
                       | Some (v, ok, r'') \<Rightarrow>
                           map_option (\<lambda>(vs, ok', t). (JArr vs, ok', t))
                             (parse_elems n [v] ok r'')))
          else if c = CHR ''{'' then
            (case skipWhite r of
               [] \<Rightarrow> None
             | d # r' \<Rightarrow>
                 if d = CHR ''}'' then Some (JObj [], True, r')
                 else (case parse_member n r of
                         None \<Rightarrow> None
                       | Some (kv, ok, r'') \<Rightarrow>
                           map_option (\<lambda>(kvs, ok', t). (JObj kvs, ok', t))
                             (parse_members n [kv] ok r'')))
          else map_option (\<lambda>(i, ok, r'). (JNum i, ok, r')) (parse_number (c # r)))"
| "parse_elems 0 acc ok s = None"
| "parse_elems (Suc n) acc ok s =
     (case skipWhite s of
        [] \<Rightarrow> None
      | c # r \<Rightarrow>
          if c = CHR '']'' then Some (acc, ok, r)
          else if c = CHR '','' then
            (case parse_value n r of
               None \<Rightarrow> None
             | Some (v, ok', r') \<Rightarrow> parse_elems n (acc @ [v]) (ok \<and> ok') r')
          else None)"
| "parse_members 0 acc ok s = None"
| "parse_members (Suc n) acc ok s =
     (case skipWhite s of
        [] \<Rightarrow> None
      | c # r \<Rightarrow>
          if c = CHR ''}'' then Some (acc, ok, r)
          else if c = CHR '','' then
            (case parse_member n r of
               None \<Rightarrow> None
             | Some ((k, v), ok', r') \<Rightarrow> parse_members n (setProperty k v acc) (ok \<and> ok') r')
          else None)"
| "parse_member 0 s = None"
| "parse_member (Suc n) s =
     (case skipWhite s of
        [] \<Rightarrow> None
      | c # r \<Rightarrow>
          if c = dquote then
            (case parse_string r of
               None \<Rightarrow> None
             | Some (k, ok, r') \<Rightarrow>
                 (case skipWhite r' of
                    [] \<Rightarrow> None
                  | d # r'' \<Rightarrow>
                      if d = CHR '':''
                      then map_option (\<lambda>(v, ok', t). ((k, v), ok \<and> ok', t)) (parse_value n r'')
                      else None))
          else None)"
  by pat_completeness auto

termination
  by (relation "measure (\<lambda>x. case x of
         Inl (Inl (n, s)) \<Rightarrow> n
       | Inl (Inr (n, acc, ok, s)) \<Rightarrow> n
       | Inr (Inl (n, acc, ok, s)) \<Rightarrow> n
       | Inr (Inr (n, s)) \<Rightarrow> n)") auto

text \<open>
  \<open>JSON.parse\<close> of a whole text: a value, with nothing but white space after it.
  \<open>Malformed\<close> is the text at which \<open>JSON.parse\<close> throws, \<open>Unmodelled\<close> the JSON text
  of a value that the values above do not carry.
\<close>

datatype decoded = Parsed json | Unmodelled | Malformed

definition json_parse :: "string \<Rightarrow> decoded" where
  "json_parse s =
     (case parse_value (length s) s of
        None \<Rightarrow> Malformed
      | Some (v, ok, r) \<Rightarrow>
          if skipWhite r \<noteq> [] then Malformed
          else if ok then Parsed v
          else Unmodelled)"

text \<open>
  The errors of the program, and a result that is one of them or a value.
  \<open>Untyped\<close> is not an error of the program: it marks where the model does not
  follow JavaScript, at a stored text that is \<open>Unmodelled\<close> and at a stored value
  that does not have the TypeScript type the method reading it declares.
\<close>

datatype error = InvalidValue | RangeError | Untyped

text \<open>
  Modelled from the spec: \<open>safeJsonParser\<close> of \<open>functions/json\<close> is not among the
  sources. The spec has stored values "decoded on read (decode failures yield the
  raw string, never throw)": a string that is JSON text is decoded, any other
  string is returned as it is, and so are a number, a boolean and \<open>undefined\<close>.
\<close>

fun safeJsonParser :: "prim option \<Rightarrow> error + json option" where
  "safeJsonParser None = Inr None"
| "safeJsonParser (Some (PString s)) =
     (case json_parse s of
        Parsed v \<Rightarrow> Inr (Some v)
      | Malformed \<Rightarrow> Inr (Some (JStr s))
      | Unmodelled \<Rightarrow> Inl Untyped)"
| "safeJsonParser (Some (PNumber n)) = Inr (Some (JNum n))"
| "safeJsonParser (Some (PBoolean b)) = Inr (Some (JBool b))"
subsection \<open>Notions for the round trip\<close>

text \<open>
  What follows a value in the text of an array or of an object: nothing, a comma or
  a closing bracket; the text of an array or of an object after its first element;
  and the property of one value that the induction on values carries.
\<close>

definition delimited :: "string \<Rightarrow> bool" where
  "delimited r =
     (case r of [] \<Rightarrow> True | c # cs \<Rightarrow> c = CHR '','' \<or> c = CHR '']'' \<or> c = CHR ''}'')"

definition rest_elems :: "json list \<Rightarrow> string" where
  "rest_elems vs = concat (map (\<lambda>v. '','' @ safeJsonStringify v) vs) @ '']''"

definition member_text :: "string \<times> json \<Rightarrow> string" where
  "member_text kv = quote (fst kv) @ '':'' @ safeJsonStringify (snd kv)"

definition rest_members :: "(string \<times> json) list \<Rightarrow> string" where
  "rest_members kvs = concat (map (\<lambda>kv. '','' @ member_text kv) kvs) @ ''}''"

definition decodes :: "json \<Rightarrow> bool" where
  "decodes v \<longleftrightarrow>
     (\<forall>n r. length (safeJsonStringify v) \<le> n \<longrightarrow> delimited r
        \<longrightarrow> parse_value n (safeJsonStringify v @ r) = Some (v, True, r))"


text \<open>An object with distinct keys and well-formed values, and what is shown of the
  decoder by induction on its first argument.\<close>

definition wellFormedObject :: "(string \<times> json) list \<Rightarrow> bool" where
  "wellFormedObject kvs \<longleftrightarrow> objectKeys (map fst kvs) \<and> list_all (\<lambda>kv. wellFormed (snd kv)) kvs"

definition parses_wellFormed :: "nat \<Rightarrow> bool" where
  "parses_wellFormed n \<longleftrightarrow>
     (\<forall>s v ok r. parse_value n s = Some (v, ok, r) \<longrightarrow> wellFormed v)
   \<and> (\<forall>acc b s vs ok r. parse_elems n acc b s = Some (vs, ok, r) \<longrightarrow> list_all wellFormed acc
         \<longrightarrow> list_all wellFormed vs)
   \<and> (\<forall>acc b s kvs ok r. parse_members n acc b s = Some (kvs, ok, r) \<longrightarrow> wellFormedObject acc
         \<longrightarrow> wellFormedObject kvs)
   \<and> (\<forall>s kv ok r. parse_member n s = Some (kv, ok, r) \<longrightarrow> wellFormed (snd kv))"

text \<open>
  What shows that the bound on the depth of the calls is never reached: what is
  left after a value is shorter than the text, and on a text no longer than the
  bound one more call changes nothing.
\<close>

definition shortens :: "nat \<Rightarrow> bool" where
  "shortens n \<longleftrightarrow>
     (\<forall>s v ok r. parse_value n s = Some (v, ok, r) \<longrightarrow> length r < length s)
   \<and> (\<forall>acc b s vs ok r. parse_elems n acc b s = Some (vs, ok, r) \<longrightarrow> length r < length s)
   \<and> (\<forall>acc b s kvs ok r. parse_members n acc b s = Some (kvs, ok, r) \<longrightarrow> length r < length s)
   \<and> (\<forall>s kv ok r. parse_member n s = Some (kv, ok, r) \<longrightarrow> length r < length s)"

definition deepEnough :: "nat \<Rightarrow> bool" where
  "deepEnough n \<longleftrightarrow>
     (\<forall>s. length s \<le> n \<longrightarrow> parse_value (Suc n) s = parse_value n s)
   \<and> (\<forall>acc b s. length s \<le> n \<longrightarrow> parse_elems (Suc n) acc b s = parse_elems n acc b s)
   \<and> (\<forall>acc b s. length s \<le> n \<longrightarrow> parse_members (Suc n) acc b s = parse_members n acc b s)
   \<and> (\<forall>s. length s \<le> n \<longrightarrow> parse_member (Suc n) s = parse_member n s)"

section \<open>ItemData\<close>

subsection \<open>The host's items and players\<close>

text \<open>
  An item stack of the host, as far as the wrapper reads or writes it: its lore, its
  dynamic properties, and its durability and enchantable components when it has
  them. A player is seen through the components \<open>updateItem\<close> asks for, and through
  the calls of \<open>container.setItem\<close> and \<open>setEquipment\<close> it receives, which
  \<open>written\<close> lists in order, each with the item as it was when it was passed (the
  host copies it). What the host itself may refuse (a slot out of range, a lore
  line too long) is not modelled.
\<close>

record Enchantment =
  enchantmentType :: string
  enchantmentLevel :: int

record ItemDurabilityComponent =
  damage :: int
  maxDurability :: int

record ItemStack =
  lore :: "string list"
  dynamicProperties :: "string \<rightharpoonup> prim"
  durability :: "ItemDurabilityComponent option"
  enchantable :: "Enchantment list option"

datatype EquipmentSlot = Body | Chest | Feet | Head | Legs | Mainhand | Offhand

datatype slotRef = ContainerSlot nat | EquipmentRef EquipmentSlot

record Player =
  hasContainer :: bool
  hasEquippable :: bool
  written :: "(slotRef \<times> ItemStack) list"

subsection \<open>The wrapper\<close>

text \<open>
  \<open>DurabilityComponent\<close> and \<open>EnchantableComponent\<close> of the source are references
  to the components of \<open>item\<close>; here they say whether the reference is set, and the
  component is read and written in the item. \<open>console\<close> collects \<open>console.warn\<close>.
\<close>

record ItemData =
  item :: ItemStack
  slot :: "slotRef option"
  player :: Player
  maxDurability :: int
  DurabilityComponent :: bool
  EnchantableComponent :: bool
  console :: "string list"


text \<open>
  A method takes the wrapper and returns what it returns or throws, with the
  wrapper as it is then.
\<close>

type_synonym 'a action = "ItemData \<Rightarrow> (error + 'a) \<times> ItemData"

definition ret :: "'a \<Rightarrow> 'a action" where
  "ret x d = (Inr x, d)"

definition throw :: "error \<Rightarrow> 'a action" where
  "throw e d = (Inl e, d)"

definition bind :: "'a action \<Rightarrow> ('a \<Rightarrow> 'b action) \<Rightarrow> 'b action" where
  "bind m f d = (case m d of (Inl e, d') \<Rightarrow> (Inl e, d') | (Inr x, d') \<Rightarrow> f x d')"

definition run :: "(ItemData \<Rightarrow> ItemData) \<Rightarrow> unit action" where
  "run f d = (Inr (), f d)"

definition read :: "(ItemData \<Rightarrow> error + 'a) \<Rightarrow> 'a action" where
  "read f d = (f d, d)"

fun forEach :: "('a \<Rightarrow> unit action) \<Rightarrow> 'a list \<Rightarrow> unit action" where
  "forEach f [] = ret ()"
| "forEach f (x # xs) = bind (f x) (\<lambda>_. forEach f xs)"

definition debugWarn :: "string \<Rightarrow> string \<Rightarrow> ItemData \<Rightarrow> ItemData" where
  "debugWarn functionName message d =
     d\<lparr>console := console d
          @ [''[PlayerData.'' @ functionName @ ''] '' @ message @ '' [No stack provided.]'']\<rparr>"

definition ItemData_new :: "ItemStack \<Rightarrow> Player \<Rightarrow> slotRef option \<Rightarrow> ItemData" where
  "ItemData_new it p sl =
     (let itemEnchantments = enchantable it;
          durabilityComponent = durability it
      in \<lparr>item = (case durabilityComponent of
                     Some c \<Rightarrow> it\<lparr>durability := Some (c\<lparr>damage := 0\<rparr>)\<rparr>
                   | None \<Rightarrow> it),
          slot = sl,
          player = p,
          maxDurability = (case durabilityComponent of
                             Some c \<Rightarrow> ItemDurabilityComponent.maxDurability c
                           | None \<Rightarrow> 0),
          DurabilityComponent = (durabilityComponent \<noteq> None),
          EnchantableComponent = (itemEnchantments \<noteq> None),
          console = []\<rparr>)"

definition updateItem :: "ItemData \<Rightarrow> ItemData" where
  "updateItem d =
     (case slot d of
        None \<Rightarrow> d
      | Some sl \<Rightarrow>
          if \<not> hasContainer (player d) \<or> \<not> hasEquippable (player d) then d
          else d\<lparr>player := (player d)\<lparr>written := written (player d) @ [(sl, item d)]\<rparr>\<rparr>)"

subsection \<open>Dynamic properties\<close>

text \<open>
  \<open>safeJsonParser(this.item.getDynamicProperty(key))\<close>. The method throws nothing;
  the result is \<open>Inl Untyped\<close> only where the stored text is \<open>Unmodelled\<close>.
\<close>

definition getDynamicProperty :: "string \<Rightarrow> ItemData \<Rightarrow> error + json option" where
  "getDynamicProperty key d = safeJsonParser (dynamicProperties (item d) key)"

text \<open>
  What is handed to the host: a string, a number or a boolean as it is. A value of
  type \<open>object\<close> has been replaced by its text before, so the last equation is never
  used.
\<close>

fun stored :: "json \<Rightarrow> prim" where
  "stored (JStr s) = PString s"
| "stored (JNum n) = PNumber n"
| "stored (JBool b) = PBoolean b"
| "stored v = PString (safeJsonStringify v)"

definition setDynamicProperty :: "string \<Rightarrow> json option \<Rightarrow> unit action" where
  "setDynamicProperty key val d =
     (case val of
        None \<Rightarrow> (Inl InvalidValue, d)
      | Some v \<Rightarrow>
          (let v' = (if typeofObject v then JStr (safeJsonStringify v) else v)
           in (Inr (), updateItem
                 (d\<lparr>item := (item d)\<lparr>dynamicProperties :=
                                         (dynamicProperties (item d))(key \<mapsto> stored v')\<rparr>\<rparr>))))"

subsection \<open>Lore\<close>

definition getLore :: "ItemData \<Rightarrow> string list" where
  "getLore d = lore (item d)"

definition setLore :: "string list \<Rightarrow> ItemData \<Rightarrow> ItemData" where
  "setLore l d = updateItem (d\<lparr>item := (item d)\<lparr>lore := l\<rparr>\<rparr>)"

definition addLore :: "string \<Rightarrow> ItemData \<Rightarrow> ItemData" where
  "addLore l d = (let currentLore = getLore d in setLore (currentLore @ [l]) d)"

subsection \<open>The three stored mappings\<close>

text \<open>
  A mapping is the list of the properties of the stored object, in their order; a
  stored value of any other shape is \<open>Untyped\<close>. A custom lore entry is a line or a
  list of lines.
\<close>

datatype loreEntry = Line string | Lines "string list"

text \<open>
  Modelled from the spec: the declaration of \<open>EnchantmentDataT\<close> in \<open>types\<close> is not
  among the sources. The spec gives a custom enchantment as \<open>{name, level}\<close>.
\<close>

record EnchantmentDataT =
  name :: string
  level :: int

text \<open>
  Modelled from the spec: the declaration of \<open>ItemEffectDataT\<close> in \<open>types\<close> is not
  among the sources. The spec gives an effect descriptor a name and a level; the
  source reads \<open>effect.effect\<close> in \<open>addEffect\<close> and \<open>effectData.name\<close> in
  \<open>updateLore\<close>.
\<close>

record ItemEffectDataT =
  name :: string
  effect :: string
  level :: int

fun encLore :: "loreEntry \<Rightarrow> json" where
  "encLore (Line s) = JStr s"
| "encLore (Lines ls) = JArr (map JStr ls)"

fun decString :: "json \<Rightarrow> string option" where
  "decString (JStr s) = Some s"
| "decString _ = None"

fun decLore :: "json \<Rightarrow> loreEntry option" where
  "decLore (JStr s) = Some (Line s)"
| "decLore (JArr vs) = map_option Lines (those (map decString vs))"
| "decLore _ = None"

definition encEnchantment :: "EnchantmentDataT \<Rightarrow> json" where
  "encEnchantment e =
     JObj [(''name'', JStr (EnchantmentDataT.name e)), (''level'', JNum (EnchantmentDataT.level e))]"

fun decEnchantment :: "json \<Rightarrow> EnchantmentDataT option" where
  "decEnchantment (JObj [(k1, JStr n), (k2, JNum l)]) =
     (if k1 = ''name'' \<and> k2 = ''level''
      then Some \<lparr>EnchantmentDataT.name = n, EnchantmentDataT.level = l\<rparr> else None)"
| "decEnchantment _ = None"

definition encEffect :: "ItemEffectDataT \<Rightarrow> json" where
  "encEffect e =
     JObj [(''name'', JStr (ItemEffectDataT.name e)), (''effect'', JStr (effect e)),
           (''level'', JNum (ItemEffectDataT.level e))]"

fun decEffect :: "json \<Rightarrow> ItemEffectDataT option" where
  "decEffect (JObj [(k1, JStr n), (k2, JStr f), (k3, JNum l)]) =
     (if k1 = ''name'' \<and> k2 = ''effect'' \<and> k3 = ''level''
      then Some \<lparr>ItemEffectDataT.name = n, effect = f, ItemEffectDataT.level = l\<rparr> else None)"
| "decEffect _ = None"

definition encObject :: "('a \<Rightarrow> json) \<Rightarrow> (string \<times> 'a) list \<Rightarrow> json" where
  "encObject enc m = JObj (map (\<lambda>kv. (fst kv, enc (snd kv))) m)"

fun decObject :: "(json \<Rightarrow> 'a option) \<Rightarrow> json \<Rightarrow> (string \<times> 'a) list option" where
  "decObject dec (JObj kvs) = those (map (\<lambda>kv. map_option (Pair (fst kv)) (dec (snd kv))) kvs)"
| "decObject dec _ = None"

text \<open>\<open>this.getDynamicProperty(key) || {}\<close>, at the type the method declares.\<close>

definition getMapping ::
  "(json \<Rightarrow> 'a option) \<Rightarrow> string \<Rightarrow> ItemData \<Rightarrow> error + (string \<times> 'a) list"
where
  "getMapping dec key d =
     (case getDynamicProperty key d of
        Inl e \<Rightarrow> Inl e
      | Inr v \<Rightarrow>
          if falsy v then Inr []
          else case v of
                 None \<Rightarrow> Inr []
               | Some j \<Rightarrow> (case decObject dec j of None \<Rightarrow> Inl Untyped | Some m \<Rightarrow> Inr m))"

definition getCustomLore :: "ItemData \<Rightarrow> error + (string \<times> loreEntry) list" where
  "getCustomLore = getMapping decLore ''lore''"

definition getCustomEnchantments :: "ItemData \<Rightarrow> error + (string \<times> EnchantmentDataT) list" where
  "getCustomEnchantments = getMapping decEnchantment ''enchantments''"

definition getEffects :: "ItemData \<Rightarrow> error + (string \<times> ItemEffectDataT) list" where
  "getEffects = getMapping decEffect ''effects''"

text \<open>
  \<open>category || index\<close> as a property name: the category unless it is missing or
  empty, else the line, or the first line of a list, or \<open>undefined\<close> for the empty
  list.
\<close>

definition loreKey :: "loreEntry \<Rightarrow> string option \<Rightarrow> string" where
  "loreKey l category =
     (let index = (case l of
                     Line s \<Rightarrow> s
                   | Lines [] \<Rightarrow> ''undefined''
                   | Lines (s # ss) \<Rightarrow> s)
      in case category of
           None \<Rightarrow> index
         | Some c \<Rightarrow> if c = [] then index else c)"

definition addCustomLore :: "loreEntry \<Rightarrow> string option \<Rightarrow> unit action" where
  "addCustomLore l category =
     bind (read getCustomLore) (\<lambda>customLore.
       setDynamicProperty ''lore''
         (Some (encObject encLore (setProperty (loreKey l category) l customLore))))"


subsection \<open>Regenerating the lore\<close>

text \<open>
  The formatting codes, \<open>removeFormat\<close> and the two title tables come from
  \<open>ChatFormat\<close> and \<open>titles\<close>, outside the modelled file; they are parameters.
\<close>

record Tables =
  BOLD :: string
  RESET :: string
  removeFormat :: "string \<Rightarrow> string"
  EnchantmentTitles :: "string \<rightharpoonup> string"
  ItemEffects :: "string \<rightharpoonup> string"

definition longestText :: string where
  "longestText = ''Has Custom Properties''"

text \<open>\<open>String.prototype.repeat\<close>: a negative count is a \<open>RangeError\<close>.\<close>

definition repeat :: "string \<Rightarrow> int \<Rightarrow> error + string" where
  "repeat s n = (if n < 0 then Inl RangeError else Inr (concat (replicate (nat n) s)))"

text \<open>\<open>table[name] || name + "-failed"\<close>.\<close>

definition titleOf :: "(string \<rightharpoonup> string) \<Rightarrow> string \<Rightarrow> string" where
  "titleOf table n =
     (case table n of
        None \<Rightarrow> n @ ''-failed''
      | Some t \<Rightarrow> if t = [] then n @ ''-failed'' else t)"

text \<open>
  The two counts of spaces: \<open>Math.floor(displaySpaces / 2 + 0.5) + 3\<close> and
  \<open>Math.floor(spacing / 2) + 1\<close>. The operands are integers, so the quotients are
  exact halves.
\<close>

definition centeredSpaces :: "int \<Rightarrow> int" where
  "centeredSpaces displaySpaces = \<lfloor>(of_int displaySpaces :: rat) / 2 + 0.5\<rfloor> + 3"

definition headerSpaces :: "int \<Rightarrow> int" where
  "headerSpaces spacing = \<lfloor>(of_int spacing :: rat) / 2\<rfloor> + 1"

text \<open>
  The statement that the source repeats for every line that is not a header:
  \<open>" ".repeat(Math.floor(displaySpaces / 2 + 0.5) + 3) + text\<close>, then \<open>addLore\<close>.
\<close>

definition addCentered :: "Tables \<Rightarrow> string \<Rightarrow> unit action" where
  "addCentered T text =
     (let displayLength = int (length (removeFormat T text));
          displaySpaces = int (length longestText) - displayLength
      in case repeat '' '' (centeredSpaces displaySpaces) of
           Inl e \<Rightarrow> throw e
         | Inr spaces \<Rightarrow> run (addLore (spaces @ text)))"

definition addCategory :: "Tables \<Rightarrow> string \<times> loreEntry \<Rightarrow> unit action" where
  "addCategory T entry =
     (case snd entry of
        Line currentLore \<Rightarrow> addCentered T currentLore
      | Lines currentLore \<Rightarrow>
          (case repeat '' '' (centeredSpaces (int (length longestText))) of
             Inl e \<Rightarrow> throw e
           | Inr spaces \<Rightarrow>
               bind (run (addLore (spaces @ BOLD T @ fst entry @ RESET T)))
                 (\<lambda>_. forEach (addCentered T) currentLore)))"

definition addHeader :: "Tables \<Rightarrow> string \<Rightarrow> unit action" where
  "addHeader T heading =
     (let spacing = int (length longestText) - int (length heading)
      in case repeat '' '' (headerSpaces spacing) of
           Inl e \<Rightarrow> throw e
         | Inr spaces \<Rightarrow> run (addLore (spaces @ BOLD T @ heading @ RESET T)))"

definition addEnchantmentLine :: "Tables \<Rightarrow> string \<times> EnchantmentDataT \<Rightarrow> unit action" where
  "addEnchantmentLine T entry =
     (let enchantmentData = snd entry;
          enchantmentTitle = titleOf (EnchantmentTitles T) (EnchantmentDataT.name enchantmentData)
      in addCentered T (enchantmentTitle @ '' '' @ toString (EnchantmentDataT.level enchantmentData)))"

definition addEffectLine :: "Tables \<Rightarrow> string \<times> ItemEffectDataT \<Rightarrow> unit action" where
  "addEffectLine T entry =
     (let effectData = snd entry;
          effectTitle = titleOf (ItemEffects T) (ItemEffectDataT.name effectData)
      in addCentered T effectTitle)"

definition updateLore :: "Tables \<Rightarrow> unit action" where
  "updateLore T =
     bind (read getCustomEnchantments) (\<lambda>enchantments.
     bind (run (setLore [])) (\<lambda>_.
     bind (read getCustomLore) (\<lambda>customLore.
     bind (forEach (addCategory T) customLore) (\<lambda>_.
     bind (addHeader T ''Enchantments'') (\<lambda>_.
     bind (forEach (addEnchantmentLine T) enchantments) (\<lambda>_.
     bind (read getEffects) (\<lambda>effects.
       if effects = [] then ret ()
       else
         bind (addHeader T ''Effects'') (\<lambda>_.
         bind (forEach (addEffectLine T) effects) (\<lambda>_.
           run updateItem)))))))))"

subsection \<open>Custom enchantments and effects\<close>




definition setEffects :: "(string \<times> ItemEffectDataT) list \<Rightarrow> unit action" where
  "setEffects effects = setDynamicProperty ''effects'' (Some (encObject encEffect effects))"

definition addEffect :: "ItemEffectDataT \<Rightarrow> unit action" where
  "addEffect e =
     bind (read getEffects) (\<lambda>effects. setEffects (setProperty (effect e) e effects))"

definition removeEffect :: "string \<Rightarrow> unit action" where
  "removeEffect e =
     bind (read getEffects) (\<lambda>effects. setEffects (AList.delete e effects))"

subsection \<open>Built-in enchantments\<close>

text \<open>
  \<open>removeAllEnchantments\<close> of the source names the component's method without
  calling it (\<open>this.EnchantableComponent.removeAllEnchantments\<close>, no parentheses): the
  statement reads a property and does nothing. \<open>removeEnchantment\<close>, beside it,
  calls the component.
\<close>

definition getEnchantments :: "ItemData \<Rightarrow> Enchantment list \<times> ItemData" where
  "getEnchantments d =
     (if \<not> EnchantableComponent d
      then ([], debugWarn ''getEnchantments'' ''Item does not have an enchantable component.'' d)
      else (case enchantable (item d) of None \<Rightarrow> [] | Some es \<Rightarrow> es, d))"

definition removeEnchantment :: "string \<Rightarrow> ItemData \<Rightarrow> ItemData" where
  "removeEnchantment enchantment d =
     (if \<not> EnchantableComponent d
      then debugWarn ''removeEnchantment'' ''Item does not have an enchantable component.'' d
      else updateItem
             (d\<lparr>item := (item d)\<lparr>enchantable :=
                  map_option (filter (\<lambda>e. enchantmentType e \<noteq> enchantment))
                    (enchantable (item d))\<rparr>\<rparr>))"

definition removeAllEnchantments :: "ItemData \<Rightarrow> ItemData" where
  "removeAllEnchantments d =
     (if \<not> EnchantableComponent d
      then debugWarn ''removeAllEnchantments'' ''Item does not have an enchantable component.'' d
      else updateItem d)"

subsection \<open>The lore block, line by line\<close>

text \<open>
  The lines of the block, one definition for each kind of line that \<open>updateLore\<close>
  adds: a line that is not a header is its text after
  \<open>floor((W - len) / 2 + 0.5) + 3\<close> spaces, \<open>W\<close> being the length of
  \<open>longestText\<close> and \<open>len\<close> the length of the text without its formatting codes; the
  headers \<open>Enchantments\<close> and \<open>Effects\<close> are bold after \<open>floor((W - len) / 2) + 1\<close>
  spaces. For the header of a category the source computes
  \<open>floor(W / 2 + 0.5) + 3\<close> spaces and does not subtract the length of the header.
\<close>

definition centeredLine :: "Tables \<Rightarrow> string \<Rightarrow> string" where
  "centeredLine T text =
     replicate
       (nat (\<lfloor>(of_int (int (length longestText) - int (length (removeFormat T text))) :: rat) / 2
               + 0.5\<rfloor> + 3))
       CHR '' ''
     @ text"

definition headerLine :: "Tables \<Rightarrow> string \<Rightarrow> string" where
  "headerLine T heading =
     replicate
       (nat (\<lfloor>(of_int (int (length longestText) - int (length heading)) :: rat) / 2\<rfloor> + 1))
       CHR '' ''
     @ BOLD T @ heading @ RESET T"

definition categoryHeader :: "Tables \<Rightarrow> string \<Rightarrow> string" where
  "categoryHeader T key =
     replicate (nat (\<lfloor>(of_int (int (length longestText)) :: rat) / 2 + 0.5\<rfloor> + 3)) CHR '' ''
     @ BOLD T @ key @ RESET T"

fun entryLines :: "Tables \<Rightarrow> string \<times> loreEntry \<Rightarrow> string list" where
  "entryLines T (key, Line s) = [centeredLine T s]"
| "entryLines T (key, Lines ls) = categoryHeader T key # map (centeredLine T) ls"

definition enchantmentText :: "Tables \<Rightarrow> string \<times> EnchantmentDataT \<Rightarrow> string" where
  "enchantmentText T entry =
     titleOf (EnchantmentTitles T) (EnchantmentDataT.name (snd entry))
     @ '' '' @ toString (EnchantmentDataT.level (snd entry))"

definition effectText :: "Tables \<Rightarrow> string \<times> ItemEffectDataT \<Rightarrow> string" where
  "effectText T entry = titleOf (ItemEffects T) (ItemEffectDataT.name (snd entry))"

definition regeneratedLore ::
  "Tables \<Rightarrow> (string \<times> loreEntry) list \<Rightarrow> (string \<times> EnchantmentDataT) list
     \<Rightarrow> (string \<times> ItemEffectDataT) list \<Rightarrow> string list"
where
  "regeneratedLore T customLore enchantments effects =
     concat (map (entryLines T) customLore)
     @ [headerLine T ''Enchantments'']
     @ map (\<lambda>entry. centeredLine T (enchantmentText T entry)) enchantments
     @ (if effects = [] then []
        else headerLine T ''Effects'' # map (\<lambda>entry. centeredLine T (effectText T entry)) effects)"

text \<open>
  The texts that are centred, in the order of the block, and the bound on their
  length under which the number of spaces is not negative.
\<close>

fun entryTexts :: "string \<times> loreEntry \<Rightarrow> string list" where
  "entryTexts (key, Line s) = [s]"
| "entryTexts (key, Lines ls) = ls"

definition centeredTexts ::
  "Tables \<Rightarrow> (string \<times> loreEntry) list \<Rightarrow> (string \<times> EnchantmentDataT) list
     \<Rightarrow> (string \<times> ItemEffectDataT) list \<Rightarrow> string list"
where
  "centeredTexts T customLore enchantments effects =
     concat (map entryTexts customLore) @ map (enchantmentText T) enchantments
     @ map (effectText T) effects"

definition fits :: "Tables \<Rightarrow> string \<Rightarrow> bool" where
  "fits T text \<longleftrightarrow> length (removeFormat T text) \<le> 28"

text \<open>Whether \<open>updateItem\<close> reaches the host, and how often it has.\<close>

definition pushing :: "ItemData \<Rightarrow> bool" where
  "pushing d \<longleftrightarrow> slot d \<noteq> None \<and> hasContainer (player d) \<and> hasEquippable (player d)"

definition pushes :: "ItemData \<Rightarrow> nat" where
  "pushes d = length (written (player d))"

text \<open>
  The wrapper after a regeneration that goes through, from the three mappings it
  has read: the lore cleared, the lines added one at a time, and the last
  \<open>updateItem\<close> only when there are effects.
\<close>

definition regenerated ::
  "Tables \<Rightarrow> (string \<times> loreEntry) list \<Rightarrow> (string \<times> EnchantmentDataT) list
     \<Rightarrow> (string \<times> ItemEffectDataT) list \<Rightarrow> ItemData \<Rightarrow> ItemData"
where
  "regenerated T customLore enchantments effects d =
     (let body = fold addLore
                   (concat (map (entryLines T) customLore)
                    @ [headerLine T ''Enchantments'']
                    @ map (\<lambda>entry. centeredLine T (enchantmentText T entry)) enchantments)
                   (setLore [] d)
      in if effects = [] then body
         else updateItem
                (fold addLore
                   (headerLine T ''Effects''
                    # map (\<lambda>entry. centeredLine T (effectText T entry)) effects)
                   body))"

section \<open>WorldDataT\<close>

record World =
  worldProperties :: "string \<rightharpoonup> prim"

record WorldDataT =
  world :: World

definition WorldDataT_getDynamicProperty ::
  "string \<Rightarrow> WorldDataT \<Rightarrow> error + json option"
where
  "WorldDataT_getDynamicProperty key w = safeJsonParser (worldProperties (world w) key)"

definition WorldDataT_setDynamicProperty ::
  "string \<Rightarrow> json option \<Rightarrow> WorldDataT \<Rightarrow> (error + unit) \<times> WorldDataT"
where
  "WorldDataT_setDynamicProperty key val w =
     (case val of
        None \<Rightarrow> (Inl InvalidValue, w)
      | Some v \<Rightarrow>
          (let v' = (if typeofObject v then JStr (safeJsonStringify v) else v)
           in (Inr (), w\<lparr>world := (world w)\<lparr>worldProperties :=
                                      (worldProperties (world w))(key \<mapsto> stored v')\<rparr>\<rparr>)))"

section \<open>Items and values to try the methods on\<close>

text \<open>
  Tables for the examples: the codes \<open>\<section>l\<close> and \<open>\<section>r\<close>, a \<open>removeFormat\<close> that drops
  the section sign with the character after it, and one title in each table.
\<close>

fun stripFormat :: "string \<Rightarrow> string" where
  "stripFormat [] = []"
| "stripFormat [c] = [c]"
| "stripFormat (c # d # cs) = (if c = sect then stripFormat cs else c # stripFormat (d # cs))"

definition demoTables :: Tables where
  "demoTables =
     \<lparr>BOLD = [sect, CHR ''l''], RESET = [sect, CHR ''r''], removeFormat = stripFormat,
      EnchantmentTitles = [''sharpness'' \<mapsto> ''Sharpness''],
      ItemEffects = [''speed'' \<mapsto> ''Speed'']\<rparr>"

definition blankItem :: ItemStack where
  "blankItem = \<lparr>lore = [], dynamicProperties = Map.empty, durability = None, enchantable = None\<rparr>"

definition somePlayer :: Player where
  "somePlayer = \<lparr>hasContainer = True, hasEquippable = True, written = []\<rparr>"

definition fresh :: ItemData where
  "fresh = ItemData_new blankItem somePlayer (Some (ContainerSlot 0))"

definition sharpness3 :: EnchantmentDataT where
  "sharpness3 = \<lparr>EnchantmentDataT.name = ''sharpness'', EnchantmentDataT.level = 3\<rparr>"

text \<open>The item of the scenario: custom lore \<open>{"Info": "Rare Item"}\<close>, the custom
  enchantment sharpness 3, no effects.\<close>

definition scenario :: ItemData where
  "scenario =
     snd (setDynamicProperty ''enchantments''
            (Some (encObject encEnchantment [(''sharpness'', sharpness3)]))
            (snd (addCustomLore (Line ''Rare Item'') (Some ''Info'') fresh)))"

text \<open>An item with a category of two lines, an effect whose name is not its key, a
  sword with a built-in enchantment, an object to store, a world, and a line too
  long to be centred.\<close>

definition statsItem :: ItemData where
  "statsItem = snd (addCustomLore (Lines [''a'', ''b'']) (Some ''Stats'') fresh)"

definition swiftness :: ItemEffectDataT where
  "swiftness = \<lparr>ItemEffectDataT.name = ''speed'', effect = ''swiftness'', ItemEffectDataT.level = 1\<rparr>"

definition sharpSword :: ItemData where
  "sharpSword =
     ItemData_new
       \<lparr>lore = [], dynamicProperties = Map.empty,
        durability = Some \<lparr>damage = 12, ItemDurabilityComponent.maxDurability = 250\<rparr>,
        enchantable = Some [\<lparr>enchantmentType = ''sharpness'', enchantmentLevel = 1\<rparr>]\<rparr>
       somePlayer (Some (EquipmentRef Mainhand))"

definition wornComponent :: ItemDurabilityComponent where
  "wornComponent = \<lparr>damage = 12, ItemDurabilityComponent.maxDurability = 250\<rparr>"

definition wornItem :: ItemStack where
  "wornItem = blankItem\<lparr>durability := Some wornComponent\<rparr>"

definition playerStats :: json where
  "playerStats = JObj [(''health'', JNum 20), (''attack'', JNum 10)]"

definition emptyWorld :: WorldDataT where
  "emptyWorld = \<lparr>world = \<lparr>worldProperties = Map.empty\<rparr>\<rparr>"

definition longLine :: string where
  "longLine = ''12345678901234567890123456789''"

definition longItem :: ItemData where
  "longItem = snd (addCustomLore (Line longLine) None fresh)"

section \<open>Properties of ChestFormData\<close>

lemma pattern_cell_frame:
  assumes "slotCount f \<le> length (buttonArray f)"
  shows "slotCount (pattern_cell ids key r c ch f) = slotCount f"
    and "length (buttonArray (pattern_cell ids key r c ch f)) = length (buttonArray f)"
    and "buttonArray (pattern_cell ids key r c ch f) ! i \<noteq> buttonArray f ! i
         \<Longrightarrow> i = c + r * 9 \<and> i < slotCount f \<and> key [ch] \<noteq> None"
  using assms
  by (auto simp: pattern_cell_def button_def array_set_def Let_def nth_list_update
           split: option.splits if_splits)

lemma pattern_row_frame:
  assumes "slotCount f \<le> length (buttonArray f)"
  shows "slotCount (pattern_row ids key r cs c f) = slotCount f
       \<and> length (buttonArray (pattern_row ids key r cs c f)) = length (buttonArray f)
       \<and> (buttonArray (pattern_row ids key r cs c f) ! i \<noteq> buttonArray f ! i
           \<longrightarrow> i < slotCount f \<and> (\<exists>j < length cs. i = (c + j) + r * 9 \<and> key [cs ! j] \<noteq> None))"
  using assms
proof (induction cs arbitrary: c f)
  case Nil
  then show ?case by simp
next
  case (Cons ch cs)
  let ?g = "pattern_cell ids key r c ch f"
  have g: "slotCount ?g = slotCount f" "length (buttonArray ?g) = length (buttonArray f)"
    using Cons.prems by (simp_all add: pattern_cell_frame)
  then have inv: "slotCount ?g \<le> length (buttonArray ?g)"
    using Cons.prems by simp
  note IH = Cons.IH [OF inv, of "Suc c"]
  show ?case
  proof (intro conjI)
    show "slotCount (pattern_row ids key r (ch # cs) c f) = slotCount f"
      using IH g by simp
    show "length (buttonArray (pattern_row ids key r (ch # cs) c f)) = length (buttonArray f)"
      using IH g by simp
  next
    show "buttonArray (pattern_row ids key r (ch # cs) c f) ! i \<noteq> buttonArray f ! i
          \<longrightarrow> i < slotCount f
              \<and> (\<exists>j < length (ch # cs). i = (c + j) + r * 9 \<and> key [(ch # cs) ! j] \<noteq> None)"
    proof
    assume ch: "buttonArray (pattern_row ids key r (ch # cs) c f) ! i \<noteq> buttonArray f ! i"
    show "i < slotCount f
          \<and> (\<exists>j < length (ch # cs). i = (c + j) + r * 9 \<and> key [(ch # cs) ! j] \<noteq> None)"
    proof (cases "buttonArray ?g ! i = buttonArray f ! i")
      case True
      with ch have "buttonArray (pattern_row ids key r cs (Suc c) ?g) ! i \<noteq> buttonArray ?g ! i"
        by simp
      with IH obtain j where "i < slotCount ?g" "j < length cs"
        "i = (Suc c + j) + r * 9" "key [cs ! j] \<noteq> None"
        by blast
      then have "i < slotCount f" "Suc j < length (ch # cs)" "i = (c + Suc j) + r * 9"
        "key [(ch # cs) ! Suc j] \<noteq> None"
        using g by simp_all
      then show ?thesis by (intro conjI exI [of _ "Suc j"]) assumption+
    next
      case False
      from pattern_cell_frame(3) [OF Cons.prems False]
      have "i = c + r * 9" "i < slotCount f" "key [ch] \<noteq> None" by simp_all
      then have "i < slotCount f" "0 < length (ch # cs)" "i = (c + 0) + r * 9"
        "key [(ch # cs) ! 0] \<noteq> None"
        by simp_all
      then show ?thesis by (intro conjI exI [of _ 0]) assumption+
    qed
    qed
  qed
qed

lemma pattern_rows_frame:
  assumes "slotCount f \<le> length (buttonArray f)"
  shows "slotCount (pattern_rows ids key p r f) = slotCount f
       \<and> length (buttonArray (pattern_rows ids key p r f)) = length (buttonArray f)
       \<and> (buttonArray (pattern_rows ids key p r f) ! i \<noteq> buttonArray f ! i
           \<longrightarrow> i < slotCount f
               \<and> (\<exists>k c. k < length p \<and> c < length (p ! k) \<and> i = c + (r + k) * 9
                        \<and> key [p ! k ! c] \<noteq> None))"
  using assms
proof (induction p arbitrary: r f)
  case Nil
  then show ?case by simp
next
  case (Cons row rows)
  let ?g = "pattern_row ids key r row 0 f"
  note R = pattern_row_frame [OF Cons.prems, of ids key r row 0 i]
  have g: "slotCount ?g = slotCount f" "length (buttonArray ?g) = length (buttonArray f)"
    using R by simp_all
  then have inv: "slotCount ?g \<le> length (buttonArray ?g)"
    using Cons.prems by simp
  note IH = Cons.IH [OF inv, of "Suc r"]
  show ?case
  proof (intro conjI)
    show "slotCount (pattern_rows ids key (row # rows) r f) = slotCount f"
      using IH g by simp
    show "length (buttonArray (pattern_rows ids key (row # rows) r f)) = length (buttonArray f)"
      using IH g by simp
  next
    show "buttonArray (pattern_rows ids key (row # rows) r f) ! i \<noteq> buttonArray f ! i
          \<longrightarrow> i < slotCount f
              \<and> (\<exists>k c. k < length (row # rows) \<and> c < length ((row # rows) ! k)
                       \<and> i = c + (r + k) * 9 \<and> key [(row # rows) ! k ! c] \<noteq> None)"
    proof
    assume ch: "buttonArray (pattern_rows ids key (row # rows) r f) ! i \<noteq> buttonArray f ! i"
    show "i < slotCount f
          \<and> (\<exists>k c. k < length (row # rows) \<and> c < length ((row # rows) ! k)
                   \<and> i = c + (r + k) * 9 \<and> key [(row # rows) ! k ! c] \<noteq> None)"
    proof (cases "buttonArray ?g ! i = buttonArray f ! i")
      case True
      with ch have "buttonArray (pattern_rows ids key rows (Suc r) ?g) ! i \<noteq> buttonArray ?g ! i"
        by simp
      with IH obtain k c where "i < slotCount ?g" "k < length rows" "c < length (rows ! k)"
        "i = c + (Suc r + k) * 9" "key [rows ! k ! c] \<noteq> None"
        by blast
      then have "i < slotCount f" "Suc k < length (row # rows)"
        "c < length ((row # rows) ! Suc k)" "i = c + (r + Suc k) * 9"
        "key [(row # rows) ! Suc k ! c] \<noteq> None"
        using g by simp_all
      then show ?thesis by (intro conjI exI [of _ "Suc k"] exI [of _ c]) assumption+
    next
      case False
      with R obtain j where "i < slotCount f" "j < length row" "i = (0 + j) + r * 9"
        "key [row ! j] \<noteq> None"
        by blast
      then have "i < slotCount f" "0 < length (row # rows)" "j < length ((row # rows) ! 0)"
        "i = j + (r + 0) * 9" "key [(row # rows) ! 0 ! j] \<noteq> None"
        by simp_all
      then show ?thesis by (intro conjI exI [of _ 0] exI [of _ j]) assumption+
    qed
    qed
  qed
qed

lemma ChestFormData_new_inv:
  "slotCount (ChestFormData_new sz) = length (buttonArray (ChestFormData_new sz))"
  by (cases sz) (simp_all add: ChestFormData_new_def dflt_def)

lemma wrapPattern_slot9:
  "buttonArray (pattern noIds wrapPattern wrapKey (ChestFormData_new SMALL)) ! 9
     \<noteq> buttonArray (ChestFormData_new SMALL) ! 9"
  by (simp add: wrapPattern_def wrapKey_def pattern_def pattern_cell_def button_def
        ChestFormData_new_def dflt_def array_set_def noIds_def Let_def numeral_eq_Suc)

text \<open>
  C9, as stated, fails for rows longer than nine characters: the tenth character of
  row 0 and the first character of row 1 both map to slot 9. With the pattern
  \<open>wrapPattern\<close>, the character of row 1 at column 0 is a space, which the key does
  not hold, and slot 9 is written all the same, by the \<open>x\<close> at column 9 of row 0.
\<close>

theorem pattern_absent_char_counterexample:
  "wrapPattern ! 1 ! 0 = CHR '' '' \<and> wrapKey [wrapPattern ! 1 ! 0] = None
   \<and> 0 + 1 * 9 = (9::nat)
   \<and> buttonArray (pattern noIds wrapPattern wrapKey (ChestFormData_new SMALL)) ! 9
       \<noteq> buttonArray (ChestFormData_new SMALL) ! 9"
  using wrapPattern_slot9 by (simp add: wrapPattern_def wrapKey_def)

text \<open>
  C9, amended: on a form whose button array is at least as long as its slot count
  (every form is, from its construction on), \<open>pattern\<close> keeps the length of the
  array and the slot count, and an element that differs afterwards has an index
  below \<open>slotCount\<close> to which some position of the pattern maps whose character is
  in the key. So nothing outside \<open>[0, slotCount)\<close> is written, and a slot is left
  as it was when every pattern position that maps to it (with rows of at most nine
  characters: its one position) holds a character absent from the key.
\<close>

theorem pattern_writes_keyed_slots_only:
  assumes "slotCount f \<le> length (buttonArray f)"
  shows "length (buttonArray (pattern ids p key f)) = length (buttonArray f)
       \<and> slotCount (pattern ids p key f) = slotCount f
       \<and> (\<forall>i. buttonArray (pattern ids p key f) ! i \<noteq> buttonArray f ! i
              \<longrightarrow> i < slotCount f \<and> keyed_position p key i)"
  using pattern_rows_frame [OF assms, of ids key p 0]
  unfolding pattern_def keyed_position_def by simp

theorem pattern_writes_keyed_slots_only_witness:
  "slotCount (ChestFormData_new SMALL) \<le> length (buttonArray (ChestFormData_new SMALL))
   \<and> length (buttonArray (pattern noIds wrapPattern wrapKey (ChestFormData_new SMALL))) = 27
   \<and> slotCount (pattern noIds wrapPattern wrapKey (ChestFormData_new SMALL)) = 27
   \<and> buttonArray (pattern noIds wrapPattern wrapKey (ChestFormData_new SMALL)) ! 9
       \<noteq> buttonArray (ChestFormData_new SMALL) ! 9
   \<and> (9::nat) < 27 \<and> keyed_position wrapPattern wrapKey 9"
proof -
  have h: "slotCount (ChestFormData_new SMALL) \<le> length (buttonArray (ChestFormData_new SMALL))"
    by (simp add: ChestFormData_new_inv)
  have n: "slotCount (ChestFormData_new SMALL) = 27"
          "length (buttonArray (ChestFormData_new SMALL)) = 27"
    by (simp_all add: ChestFormData_new_def dflt_def)
  show ?thesis
    using h n wrapPattern_slot9
      pattern_writes_keyed_slots_only [OF h, of noIds wrapPattern wrapKey]
    by simp
qed

section \<open>Properties of queueForm\<close>








lemma queueForm_retry_throws_logged:
  "queueForm () quiet [Returns (Fulfilled busyResponse), Throws ''no player'']
     = ([Show (), Show (), ConsoleError ''no player''], Chain (Fulfilled ()))"
  by (simp add: busyResponse_def)


section \<open>The JSON helpers undo each other\<close>

subsection \<open>Setting a property\<close>

lemma jsOrdered_last:
  "jsOrdered (ks @ [k]) \<Longrightarrow> isArrayIndex k \<Longrightarrow> k' \<in> set ks
   \<Longrightarrow> isArrayIndex k' \<and> digitsValue k' \<le> digitsValue k"
  by (induction ks) (auto simp: list_all_iff)

lemma insertIndex_end:
  "(\<And>p. p \<in> set obj \<Longrightarrow> isArrayIndex (fst p) \<and> digitsValue (fst p) \<le> digitsValue k)
   \<Longrightarrow> insertIndex k v obj = obj @ [(k, v)]"
  by (induction obj) auto

lemma setProperty_fresh:
  assumes "k \<notin> set (map fst obj)" and "jsOrdered (map fst obj @ [k])"
  shows "setProperty k v obj = obj @ [(k, v)]"
proof (cases "isArrayIndex k")
  case True
  have "insertIndex k v obj = obj @ [(k, v)]"
  proof (rule insertIndex_end)
    fix p assume "p \<in> set obj"
    then have "fst p \<in> set (map fst obj)" by simp
    then show "isArrayIndex (fst p) \<and> digitsValue (fst p) \<le> digitsValue k"
      using jsOrdered_last [OF assms(2) True] by blast
  qed
  then show ?thesis
    using assms(1) True by (simp add: setProperty_def)
next
  case False
  then show ?thesis
    using assms(1) by (simp add: setProperty_def)
qed

lemma insertIndex_keys: "set (map fst (insertIndex k v obj)) = insert k (set (map fst obj))"
  by (induction obj) auto

lemma distinct_insertIndex:
  "k \<notin> set (map fst obj) \<Longrightarrow> distinct (map fst obj) \<Longrightarrow> distinct (map fst (insertIndex k v obj))"
proof (induction obj)
  case Nil
  show ?case by simp
next
  case (Cons p ps)
  then show ?case
    using insertIndex_keys [of k v ps] by auto
qed

lemma jsOrdered_insertIndex:
  "isArrayIndex k \<Longrightarrow> jsOrdered (map fst obj) \<Longrightarrow> jsOrdered (map fst (insertIndex k v obj))"
proof (induction obj)
  case Nil
  show ?case by simp
next
  case (Cons p ps)
  have ord: "list_all (\<lambda>k'. \<not> isArrayIndex k'
                \<or> (isArrayIndex (fst p) \<and> digitsValue (fst p) \<le> digitsValue k')) (map fst ps)"
    and rest: "jsOrdered (map fst ps)"
    using Cons.prems(2) by simp_all
  show ?case
  proof (cases "isArrayIndex (fst p) \<and> digitsValue (fst p) \<le> digitsValue k")
    case True
    then have eq: "insertIndex k v (p # ps) = p # insertIndex k v ps"
      by simp
    have "list_all (\<lambda>k'. \<not> isArrayIndex k'
             \<or> (isArrayIndex (fst p) \<and> digitsValue (fst p) \<le> digitsValue k'))
            (map fst (insertIndex k v ps))"
      using ord True insertIndex_keys [of k v ps]
      by (auto simp: list_all_iff)
    then show ?thesis
      unfolding eq using Cons.IH [OF Cons.prems(1) rest] by simp
  next
    case False
    then have eq: "insertIndex k v (p # ps) = (k, v) # p # ps"
      by auto
    have "list_all (\<lambda>k'. \<not> isArrayIndex k'
             \<or> (isArrayIndex k \<and> digitsValue k \<le> digitsValue k')) (map fst (p # ps))"
      using ord False Cons.prems(1) by (auto simp: list_all_iff)
    then show ?thesis
      unfolding eq using Cons.prems(2) by simp
  qed
qed

lemma jsOrdered_snoc: "\<not> isArrayIndex k \<Longrightarrow> jsOrdered ks \<Longrightarrow> jsOrdered (ks @ [k])"
  by (induction ks) (auto simp: list_all_iff)

lemma objectKeys_setProperty:
  assumes "objectKeys (map fst obj)"
  shows "objectKeys (map fst (setProperty k v obj))"
proof (cases "k \<in> set (map fst obj)")
  case True
  then have "map fst (setProperty k v obj) = map fst obj"
    by (simp add: setProperty_def update_keys)
  then show ?thesis using assms by simp
next
  case False
  show ?thesis
  proof (cases "isArrayIndex k")
    case True
    then show ?thesis
      using assms False
      by (simp add: setProperty_def objectKeys_def distinct_insertIndex jsOrdered_insertIndex)
  next
    case notIndex: False
    then show ?thesis
      using assms False by (simp add: setProperty_def objectKeys_def jsOrdered_snoc)
  qed
qed

lemma delete_subset: "set (AList.delete k ps) \<subseteq> set ps"
  by (induction ps) auto

lemma jsOrdered_delete: "jsOrdered (map fst ps) \<Longrightarrow> jsOrdered (map fst (AList.delete k ps))"
proof (induction ps)
  case Nil
  show ?case by simp
next
  case (Cons p ps)
  then show ?case
    using delete_subset [of k ps] by (auto simp: list_all_iff)
qed

lemma objectKeys_delete:
  "objectKeys (map fst obj) \<Longrightarrow> objectKeys (map fst (AList.delete k obj))"
  by (simp add: objectKeys_def distinct_delete jsOrdered_delete)

lemma insertIndex_lookup: "k \<notin> set (map fst obj) \<Longrightarrow> map_of (insertIndex k v obj) k = Some v"
  by (induction obj) auto

lemma setProperty_lookup: "map_of (setProperty k v obj) k = Some v"
proof (cases "k \<in> set (map fst obj)")
  case True
  then show ?thesis by (simp add: setProperty_def update_conv')
next
  case False
  then have "map_of obj k = None"
    by (simp add: map_of_eq_None_iff)
  then show ?thesis
    using False by (simp add: setProperty_def insertIndex_lookup map_add_def)
qed

lemma objectKeys_simps [simp]: "objectKeys []" "objectKeys [k]"
  by (simp_all add: objectKeys_def)

lemma jsOrdered_prefix: "jsOrdered (xs @ ys) \<Longrightarrow> jsOrdered xs"
  by (induction xs) (auto simp: list_all_iff)

lemma setProperty_set: "set (setProperty k v obj) \<subseteq> insert (k, v) (set obj)"
proof -
  have "set (AList.update k v obj) \<subseteq> insert (k, v) (set obj)"
    by (induction obj) auto
  moreover have "set (insertIndex k v obj) \<subseteq> insert (k, v) (set obj)"
    by (induction obj) auto
  ultimately show ?thesis
    by (auto simp: setProperty_def)
qed

lemma join_Cons: "join sep (x # xs) = x @ concat (map (\<lambda>y. sep @ y) xs)"
  by (induction xs arbitrary: x) auto

lemma of_char_digit: "d < 10 \<Longrightarrow> (of_char (digit d) :: nat) = d + 48"
  by (simp add: digit_def)

lemma isDigit_digit: "d < 10 \<Longrightarrow> isDigit (digit d)"
  by (simp add: isDigit_def of_char_digit)

lemma digits_all: "list_all isDigit (digits n)"
proof (induction n rule: digits.induct)
  case (1 n)
  show ?case
    by (subst digits.simps) (use 1 in \<open>auto simp: isDigit_digit\<close>)
qed

lemma digits_nonempty: "digits n \<noteq> []"
  by (subst digits.simps) simp

lemma of_char_digit_int: "d < 10 \<Longrightarrow> (of_char (digit d) :: int) = int d + 48"
  using of_char_digit [of d] of_nat_of_char [of "digit d", where ?'a = int] by simp

lemma digitsValue_snoc: "digitsValue (ds @ [c]) = 10 * digitsValue ds + (of_char c - 48)"
  by (simp add: digitsValue_def)

lemma digitsValue_digits: "digitsValue (digits n) = int n"
proof (induction n rule: digits.induct)
  case (1 n)
  show ?case
  proof (cases "10 \<le> n")
    case True
    then have "digitsValue (digits n) = 10 * int (n div 10) + int (n mod 10)"
      using 1 by (subst digits.simps) (simp add: digitsValue_snoc of_char_digit_int)
    then show ?thesis by presburger
  next
    case False
    then show ?thesis
      by (subst digits.simps) (simp add: digitsValue_def of_char_digit_int)
  qed
qed

lemma hd_digits: "hd (digits n) = CHR ''0'' \<Longrightarrow> n = 0"
proof (induction n rule: digits.induct)
  case (1 n)
  show ?case
  proof (cases "10 \<le> n")
    case True
    then have "hd (digits n) = hd (digits (n div 10))"
      by (subst digits.simps) (simp add: digits_nonempty)
    with 1 True have "n div 10 = 0" by simp
    with True show ?thesis by simp
  next
    case False
    then have "digits n = [digit n]" by (subst digits.simps) simp
    with 1(2) have "digit n = CHR ''0''" by simp
    then have "(of_char (digit n) :: nat) = of_char CHR ''0''" by simp
    with False show ?thesis by (simp add: of_char_digit)
  qed
qed

lemma delimited_digits:
  assumes "delimited r"
  shows "takeWhile isDigit r = []" and "dropWhile isDigit r = r"
    and "parse_fraction r = Some ([], r)" and "parse_exponent r = Some (0, r)"
  using assms
  by (cases r; auto simp: delimited_def isDigit_def parse_fraction_def parse_exponent_def)+

lemma takeWhile_digits:
  assumes "delimited r"
  shows "takeWhile isDigit (digits n @ r) = digits n"
    and "dropWhile isDigit (digits n @ r) = r"
proof -
  have a: "\<forall>c \<in> set (digits n). isDigit c"
    using digits_all [of n] by (simp add: list_all_iff)
  show "takeWhile isDigit (digits n @ r) = digits n"
    using a delimited_digits(1) [OF assms] by (simp add: takeWhile_append2)
  show "dropWhile isDigit (digits n @ r) = r"
    using a delimited_digits(2) [OF assms] by (simp add: dropWhile_append2)
qed

lemma digits_small: "n < 10 \<Longrightarrow> digits n = [digit n]"
  by (subst digits.simps) simp

lemma digits_no_leading_zero: "\<not> (1 < length (digits n) \<and> hd (digits n) = CHR ''0'')"
  using hd_digits [of n] digits_small [of 0] by auto

lemma digit_not_minus: "isDigit c \<Longrightarrow> c \<noteq> CHR ''-''"
  by (auto simp: isDigit_def)

lemma hd_digits_isDigit: "\<exists>c cs. digits n = c # cs \<and> isDigit c"
  using digits_all [of n] digits_nonempty [of n] by (cases "digits n") auto

lemma scaled_integer: "scaled m 0 = (m, True)"
  by (simp add: scaled_def)

lemma parse_number_digits:
  assumes "delimited r"
  shows "parse_number (digits n @ r) = Some (int n, True, r)"
proof -
  obtain c cs where d: "digits n = c # cs" "isDigit c"
    using hd_digits_isDigit by blast
  have neg: "(case digits n @ r of [] \<Rightarrow> False | c # r \<Rightarrow> c = CHR ''-'') = False"
    using d digit_not_minus [of c] by simp
  show ?thesis
    unfolding parse_number_def neg Let_def
    using digits_no_leading_zero [of n]
    by (simp add: takeWhile_digits [OF assms] delimited_digits [OF assms] digits_nonempty
        digitsValue_digits scaled_integer)
qed

lemma parse_number_minus:
  assumes "delimited r"
  shows "parse_number (CHR ''-'' # digits n @ r) = Some (- int n, True, r)"
proof -
  show ?thesis
    unfolding parse_number_def Let_def
    using digits_no_leading_zero [of n]
    by (simp add: takeWhile_digits [OF assms] delimited_digits [OF assms] digits_nonempty
        digitsValue_digits scaled_integer)
qed

lemma parse_number_toString:
  assumes "delimited r"
  shows "parse_number (toString i @ r) = Some (i, True, r)"
proof (cases "i < 0")
  case True
  then show ?thesis
    using parse_number_minus [OF assms, of "nat (- i)"] by (simp add: toString_def)
next
  case False
  then show ?thesis
    using parse_number_digits [OF assms, of "nat i"] by (simp add: toString_def)
qed

lemma hexValue_hexDigit: "k < 16 \<Longrightarrow> hexValue (hexDigit k) = Some k"
  by (auto simp: hexValue_def hexDigit_def Let_def)

lemma hexValue_zero: "hexValue CHR ''0'' = Some 0"
  by (simp add: hexValue_def)

lemma codeUnit_escape:
  assumes "n < 256"
  shows "codeUnit CHR ''0'' CHR ''0'' (hexDigit (n div 16)) (hexDigit (n mod 16)) = Some n"
proof -
  have "n div 16 < 16" using assms by simp
  then show ?thesis
    by (simp add: codeUnit_def hexValue_zero hexValue_hexDigit)
qed

lemma of_char_below: "(of_char c :: nat) < 256"
proof -
  have "(of_char c :: nat) mod 256 = of_char c"
    by (rule of_char_mod_256)
  then show ?thesis
    by (metis mod_less_divisor zero_less_numeral)
qed

lemma parse_string_escapeChar:
  "parse_string (escapeChar c @ t) = consChar c True (parse_string t)"
proof -
  consider "c = dquote" | "c = backslash" | "c = CHR 0x08" | "c = CHR 0x09" | "c = CHR 0x0A"
    | "c = CHR 0x0C" | "c = CHR 0x0D"
    | "(of_char c :: nat) < 32" "c \<noteq> CHR 0x08" "c \<noteq> CHR 0x09" "c \<noteq> CHR 0x0A"
      "c \<noteq> CHR 0x0C" "c \<noteq> CHR 0x0D"
    | "\<not> (of_char c :: nat) < 32" "c \<noteq> dquote" "c \<noteq> backslash"
    by blast
  then show ?thesis
  proof cases
    case 8
    have ne: "c \<noteq> dquote" "c \<noteq> backslash"
      using 8(1) by (auto simp: dquote_def backslash_def)
    have esc: "escapeChar c = [backslash, CHR ''u'', CHR ''0'', CHR ''0'',
        hexDigit ((of_char c :: nat) div 16), hexDigit ((of_char c :: nat) mod 16)]"
      using 8 ne by (simp add: escapeChar_def)
    show ?thesis
      unfolding esc
      using codeUnit_escape [OF of_char_below, of c] of_char_below [of c]
      by (simp add: dquote_def backslash_def)
  next
    case 9
    then have esc: "escapeChar c = [c]"
      by (auto simp: escapeChar_def)
    show ?thesis
      unfolding esc using 9 by simp
  qed (simp_all add: escapeChar_def unescape_def dquote_def backslash_def)
qed

lemma parse_string_escape: "parse_string (escape s @ dquote # r) = Some (s, True, r)"
  by (induction s) (simp_all add: parse_string_escapeChar consChar_def)

lemma length_escapeChar: "1 \<le> length (escapeChar c)"
  by (simp add: escapeChar_def)

lemma length_escape: "length s \<le> length (escape s)"
proof (induction s)
  case Nil
  show ?case by simp
next
  case (Cons c s)
  then show ?case
    using length_escapeChar [of c] by simp
qed

lemma delimited_simps [simp]:
  "delimited []"
  "delimited (CHR '','' # x)"
  "delimited (CHR '']'' # x)"
  "delimited (CHR ''}'' # x)"
  by (simp_all add: delimited_def)

lemma skipWhite_Cons: "\<not> isWhite c \<Longrightarrow> skipWhite (c # cs) = c # cs"
  by (simp add: skipWhite_def)

lemma skipWhite_Nil [simp]: "skipWhite [] = []"
  by (simp add: skipWhite_def)

lemma skipWhite_delimited: "delimited r \<Longrightarrow> skipWhite r = r"
  by (cases r) (auto simp: delimited_def skipWhite_def isWhite_def)

lemma skipWhite_simps [simp]:
  "skipWhite (CHR ''n'' # x) = CHR ''n'' # x"
  "skipWhite (CHR ''t'' # x) = CHR ''t'' # x"
  "skipWhite (CHR ''f'' # x) = CHR ''f'' # x"
  "skipWhite (CHR ''['' # x) = CHR ''['' # x"
  "skipWhite (CHR ''{'' # x) = CHR ''{'' # x"
  "skipWhite (CHR '']'' # x) = CHR '']'' # x"
  "skipWhite (CHR ''}'' # x) = CHR ''}'' # x"
  "skipWhite (CHR '','' # x) = CHR '','' # x"
  "skipWhite (CHR '':'' # x) = CHR '':'' # x"
  "skipWhite (dquote # x) = dquote # x"
  "skipWhite (CHR 0x22 # x) = CHR 0x22 # x"
  by (simp_all add: skipWhite_def isWhite_def dquote_def)

lemma toString_first:
  "\<exists>c cs. toString i = c # cs \<and> (c = CHR ''-'' \<or> isDigit c)"
  using hd_digits_isDigit [of "nat i"] by (auto simp: toString_def)

lemma number_first_char:
  assumes "c = CHR ''-'' \<or> isDigit c"
  shows "c \<noteq> CHR ''n''" "c \<noteq> CHR ''t''" "c \<noteq> CHR ''f''" "c \<noteq> dquote"
    "c \<noteq> CHR ''[''" "c \<noteq> CHR ''{''" "c \<noteq> CHR '']''" "c \<noteq> CHR ''}''" "\<not> isWhite c"
  using assms by (auto simp: isDigit_def dquote_def isWhite_def)

lemma stringify_JArr_Cons:
  "safeJsonStringify (JArr (v # vs)) = CHR ''['' # safeJsonStringify v @ rest_elems vs"
  by (simp add: join_Cons rest_elems_def comp_def)

lemma stringify_JObj_Cons:
  "safeJsonStringify (JObj (kv # kvs)) = CHR ''{'' # member_text kv @ rest_members kvs"
  by (simp add: join_Cons rest_members_def member_text_def comp_def)

lemma stringify_first:
  "\<exists>c cs. safeJsonStringify v = c # cs \<and> c \<noteq> CHR '']'' \<and> \<not> isWhite c"
proof (cases v)
  case (JNum i)
  then show ?thesis
    using toString_first [of i] number_first_char(7,9) by auto
next
  case (JArr vs)
  then show ?thesis by (simp add: isWhite_def)
next
  case (JObj kvs)
  then show ?thesis by (simp add: isWhite_def)
qed (simp_all add: quote_def dquote_def isWhite_def)

lemma decodesD:
  "decodes v \<Longrightarrow> length (safeJsonStringify v) \<le> n \<Longrightarrow> delimited r
   \<Longrightarrow> parse_value n (safeJsonStringify v @ r) = Some (v, True, r)"
  by (simp add: decodes_def)

lemma delimited_rest_elems [simp]: "delimited (rest_elems vs @ r)"
  by (cases vs) (simp_all add: rest_elems_def)

lemma delimited_rest_members [simp]: "delimited (rest_members kvs @ r)"
  by (cases kvs) (simp_all add: rest_members_def)

lemma parse_elems_rest:
  assumes "\<And>v. v \<in> set vs \<Longrightarrow> decodes v"
    and "length (rest_elems vs) \<le> n"
  shows "parse_elems n acc ok (rest_elems vs @ r) = Some (acc @ vs, ok, r)"
  using assms
proof (induction vs arbitrary: n acc)
  case Nil
  then obtain m where "n = Suc m" by (cases n) (auto simp: rest_elems_def)
  then show ?case by (simp add: rest_elems_def)
next
  case (Cons v vs)
  have split: "rest_elems (v # vs) = CHR '','' # safeJsonStringify v @ rest_elems vs"
    by (simp add: rest_elems_def)
  with Cons.prems(2) obtain m where n: "n = Suc m"
    and lv: "length (safeJsonStringify v) \<le> m" and lr: "length (rest_elems vs) \<le> m"
    by (cases n) auto
  have "parse_value m (safeJsonStringify v @ rest_elems vs @ r)
          = Some (v, True, rest_elems vs @ r)"
    using decodesD [OF Cons.prems(1) lv delimited_rest_elems] by simp
  moreover have "parse_elems m (acc @ [v]) ok (rest_elems vs @ r) = Some ((acc @ [v]) @ vs, ok, r)"
    using Cons.IH [OF _ lr] Cons.prems(1) by simp
  ultimately show ?case
    by (simp add: n split)
qed

lemma parse_member_text:
  assumes "decodes (snd kv)" and "length (member_text kv) \<le> n" and "delimited r"
  shows "parse_member n (member_text kv @ r) = Some (kv, True, r)"
proof -
  obtain k v where kv: "kv = (k, v)" by (cases kv)
  have mt: "member_text kv = dquote # escape k @ dquote # CHR '':'' # safeJsonStringify v"
    by (simp add: member_text_def quote_def kv)
  with assms(2) obtain m where n: "n = Suc m" and lv: "length (safeJsonStringify v) \<le> m"
    by (cases n) auto
  have "parse_value m (safeJsonStringify v @ r) = Some (v, True, r)"
    using decodesD [OF _ lv assms(3)] assms(1) kv by simp
  then show ?thesis
    using parse_string_escape [of k "CHR '':'' # safeJsonStringify v @ r"]
    unfolding n mt by (simp add: kv)
qed

lemma parse_members_rest:
  assumes "\<And>kv. kv \<in> set kvs \<Longrightarrow> decodes (snd kv)"
    and "length (rest_members kvs) \<le> n"
    and "objectKeys (map fst (acc @ kvs))"
  shows "parse_members n acc ok (rest_members kvs @ r) = Some (acc @ kvs, ok, r)"
  using assms
proof (induction kvs arbitrary: n acc)
  case Nil
  then obtain m where "n = Suc m" by (cases n) (auto simp: rest_members_def)
  then show ?case by (simp add: rest_members_def)
next
  case (Cons kv kvs)
  obtain k v where kv: "kv = (k, v)" by (cases kv)
  have split: "rest_members (kv # kvs) = CHR '','' # member_text kv @ rest_members kvs"
    by (simp add: rest_members_def)
  with Cons.prems(2) obtain m where n: "n = Suc m"
    and lv: "length (member_text kv) \<le> m" and lr: "length (rest_members kvs) \<le> m"
    by (cases n) auto
  have "parse_member m (member_text kv @ rest_members kvs @ r)
          = Some (kv, True, rest_members kvs @ r)"
    using parse_member_text [OF _ lv delimited_rest_members] Cons.prems(1) by simp
  moreover have "setProperty k v acc = acc @ [kv]"
  proof -
    have "k \<notin> set (map fst acc)"
      using Cons.prems(3) by (simp add: objectKeys_def kv)
    moreover have "jsOrdered (map fst acc @ [k])"
      using Cons.prems(3) jsOrdered_prefix [of "map fst acc @ [k]" "map fst kvs"]
      by (simp add: objectKeys_def kv)
    ultimately show ?thesis
      by (simp add: setProperty_fresh kv)
  qed
  moreover have "parse_members m (acc @ [kv]) ok (rest_members kvs @ r)
                   = Some ((acc @ [kv]) @ kvs, ok, r)"
    using Cons.IH [OF _ lr] Cons.prems(1,3) by simp
  ultimately show ?case
    unfolding n split by (simp add: kv)
qed

lemma wellFormed_decodes: "wellFormed v \<Longrightarrow> decodes v"
proof (induction v)
  case JNull
  show ?case
    unfolding decodes_def
  proof (intro allI impI)
    fix n r assume "length (safeJsonStringify JNull) \<le> n"
    then obtain m where "n = Suc m" by (cases n) auto
    then show "parse_value n (safeJsonStringify JNull @ r) = Some (JNull, True, r)"
      by (simp add: strip_prefix_def)
  qed
next
  case (JBool b)
  show ?case
    unfolding decodes_def
  proof (intro allI impI)
    fix n r assume "length (safeJsonStringify (JBool b)) \<le> n"
    then obtain m where "n = Suc m" by (cases n) (auto split: if_splits)
    then show "parse_value n (safeJsonStringify (JBool b) @ r) = Some (JBool b, True, r)"
      by (simp add: strip_prefix_def)
  qed
next
  case (JNum i)
  show ?case
    unfolding decodes_def
  proof (intro allI impI)
    fix n r assume len: "length (safeJsonStringify (JNum i)) \<le> n" and nd: "delimited r"
    obtain c cs where t: "toString i = c # cs" "c = CHR ''-'' \<or> isDigit c"
      using toString_first by blast
    with len obtain m where n: "n = Suc m" by (cases n) auto
    have "parse_number (c # cs @ r) = Some (i, True, r)"
      using parse_number_toString [OF nd, of i] t by simp
    then show "parse_value n (safeJsonStringify (JNum i) @ r) = Some (JNum i, True, r)"
      using number_first_char [OF t(2)] by (simp add: n t skipWhite_Cons)
  qed
next
  case (JStr s)
  show ?case
    unfolding decodes_def
  proof (intro allI impI)
    fix n r assume "length (safeJsonStringify (JStr s)) \<le> n"
    then obtain m where n: "n = Suc m" by (cases n) (auto simp: quote_def)
    have ne: "dquote \<noteq> CHR ''n''" "dquote \<noteq> CHR ''t''" "dquote \<noteq> CHR ''f''"
      by (simp_all add: dquote_def)
    show "parse_value n (safeJsonStringify (JStr s) @ r) = Some (JStr s, True, r)"
      using parse_string_escape [of s r] ne by (simp add: quote_def n)
  qed
next
  case (JArr vs)
  have sub: "\<And>v. v \<in> set vs \<Longrightarrow> decodes v"
    using JArr by (simp add: list_all_iff)
  show ?case
    unfolding decodes_def
  proof (intro allI impI)
    fix n r assume len: "length (safeJsonStringify (JArr vs)) \<le> n"
    show "parse_value n (safeJsonStringify (JArr vs) @ r) = Some (JArr vs, True, r)"
    proof (cases vs)
      case Nil
      with len obtain m where "n = Suc m" by (cases n) auto
      then show ?thesis by (simp add: Nil dquote_def)
    next
      case (Cons v ws)
      from len obtain m where n: "n = Suc m"
        and lv: "length (safeJsonStringify v) \<le> m" and lr: "length (rest_elems ws) \<le> m"
        unfolding Cons stringify_JArr_Cons by (cases n) auto
      obtain c cs where f: "safeJsonStringify v = c # cs" "c \<noteq> CHR '']''" "\<not> isWhite c"
        using stringify_first by blast
      have "parse_value m (safeJsonStringify v @ rest_elems ws @ r)
              = Some (v, True, rest_elems ws @ r)"
        using decodesD [OF sub lv delimited_rest_elems] Cons by simp
      moreover have "parse_elems m [v] True (rest_elems ws @ r) = Some ([v] @ ws, True, r)"
        using parse_elems_rest [OF _ lr] sub Cons by simp
      moreover have "skipWhite (safeJsonStringify v @ rest_elems ws @ r)
                       = c # cs @ rest_elems ws @ r"
        using f by (simp add: skipWhite_Cons)
      ultimately show ?thesis
        unfolding Cons stringify_JArr_Cons n
        using f by (simp add: dquote_def)
    qed
  qed
next
  case (JObj kvs)
  have sub: "\<And>kv. kv \<in> set kvs \<Longrightarrow> decodes (snd kv)"
    using JObj by (auto simp: list_all_iff snds.simps)
  have dist: "objectKeys (map fst kvs)"
    using JObj.prems by simp
  show ?case
    unfolding decodes_def
  proof (intro allI impI)
    fix n r assume len: "length (safeJsonStringify (JObj kvs)) \<le> n"
    show "parse_value n (safeJsonStringify (JObj kvs) @ r) = Some (JObj kvs, True, r)"
    proof (cases kvs)
      case Nil
      with len obtain m where "n = Suc m" by (cases n) auto
      then show ?thesis by (simp add: Nil dquote_def)
    next
      case (Cons kv ws)
      from len obtain m where n: "n = Suc m"
        and lv: "length (member_text kv) \<le> m" and lr: "length (rest_members ws) \<le> m"
        unfolding Cons stringify_JObj_Cons by (cases n) auto
      obtain cs where f: "member_text kv = dquote # cs"
        by (simp add: member_text_def quote_def)
      have "parse_member m (member_text kv @ rest_members ws @ r)
              = Some (kv, True, rest_members ws @ r)"
        using parse_member_text [OF _ lv delimited_rest_members] sub Cons by simp
      moreover have "parse_members m [kv] True (rest_members ws @ r) = Some ([kv] @ ws, True, r)"
        using parse_members_rest [OF _ lr, of "[kv]"] sub dist Cons by simp
      ultimately show ?thesis
        unfolding Cons stringify_JObj_Cons n f
        by (simp add: dquote_def)
    qed
  qed
qed

lemma json_parse_stringify: "wellFormed v \<Longrightarrow> json_parse (safeJsonStringify v) = Parsed v"
  using decodesD [OF wellFormed_decodes, of v "length (safeJsonStringify v)" "[]"]
  by (simp add: json_parse_def)

subsection \<open>What the decoder returns is well formed\<close>

lemma wellFormedObject_update:
  assumes "wellFormedObject acc" and "wellFormed v"
  shows "wellFormedObject (setProperty k v acc)"
proof -
  have "list_all (\<lambda>kv. wellFormed (snd kv)) (setProperty k v acc)"
    using assms setProperty_set [of k v acc]
    by (auto simp: wellFormedObject_def list_all_iff)
  then show ?thesis
    using assms(1) by (simp add: wellFormedObject_def objectKeys_setProperty)
qed

lemma parses_wellFormed_all: "parses_wellFormed n"
proof (induction n)
  case 0
  show ?case by (simp add: parses_wellFormed_def)
next
  case (Suc n)
  have V: "\<And>s v ok r. parse_value n s = Some (v, ok, r) \<Longrightarrow> wellFormed v"
    and E: "\<And>acc b s vs ok r. parse_elems n acc b s = Some (vs, ok, r)
              \<Longrightarrow> list_all wellFormed acc \<Longrightarrow> list_all wellFormed vs"
    and M: "\<And>acc b s kvs ok r. parse_members n acc b s = Some (kvs, ok, r)
              \<Longrightarrow> wellFormedObject acc \<Longrightarrow> wellFormedObject kvs"
    and K: "\<And>s kv ok r. parse_member n s = Some (kv, ok, r) \<Longrightarrow> wellFormed (snd kv)"
    using Suc unfolding parses_wellFormed_def by blast+
  have v: "wellFormed v" if eq: "parse_value (Suc n) s = Some (v, ok, r)" for s v ok r
  proof (cases "skipWhite s")
    case Nil
    with eq show ?thesis by simp
  next
    case (Cons c t)
    show ?thesis
    proof (cases "c = CHR ''[''")
      case True
      show ?thesis
      proof (cases "skipWhite t")
        case Nil
        with eq Cons True show ?thesis by (simp add: dquote_def)
      next
        case inner: (Cons d t')
        show ?thesis
        proof (cases "d = CHR '']''")
          case True
          with eq Cons \<open>c = CHR ''[''\<close> inner show ?thesis by (auto simp: dquote_def)
        next
          case False
          with eq Cons \<open>c = CHR ''[''\<close> inner
          obtain v1 ok1 r1 vs where p: "parse_value n t = Some (v1, ok1, r1)"
            "parse_elems n [v1] ok1 r1 = Some (vs, ok, r)" "v = JArr vs"
            by (auto simp: dquote_def split: option.splits)
          have "list_all wellFormed vs"
            using E [OF p(2)] V [OF p(1)] by simp
          then show ?thesis using p(3) by simp
        qed
      qed
    next
      case notArr: False
      show ?thesis
      proof (cases "c = CHR ''{''")
        case True
        show ?thesis
        proof (cases "skipWhite t")
          case Nil
          with eq Cons True show ?thesis by (simp add: dquote_def)
        next
          case inner: (Cons d t')
          show ?thesis
          proof (cases "d = CHR ''}''")
            case True
            with eq Cons \<open>c = CHR ''{''\<close> inner show ?thesis by (auto simp: dquote_def)
          next
            case False
            with eq Cons \<open>c = CHR ''{''\<close> inner
            obtain kv ok1 r1 kvs where p: "parse_member n t = Some (kv, ok1, r1)"
              "parse_members n [kv] ok1 r1 = Some (kvs, ok, r)" "v = JObj kvs"
              by (auto simp: dquote_def split: option.splits)
            have "wellFormedObject [kv]"
              using K [OF p(1)] by (simp add: wellFormedObject_def objectKeys_def)
            then have "wellFormedObject kvs"
              using M [OF p(2)] by simp
            then show ?thesis using p(3) by (simp add: wellFormedObject_def)
          qed
        qed
      next
        case False
        with eq Cons notArr show ?thesis
          by (auto split: if_splits)
      qed
    qed
  qed
  have e: "list_all wellFormed vs"
    if eq: "parse_elems (Suc n) acc b s = Some (vs, ok, r)" and acc: "list_all wellFormed acc"
    for acc b s vs ok r
  proof (cases "skipWhite s")
    case Nil
    with eq show ?thesis by simp
  next
    case (Cons c t)
    show ?thesis
    proof (cases "c = CHR '']''")
      case True
      with eq Cons acc show ?thesis by simp
    next
      case False
      with eq Cons obtain v1 ok1 r1 where p: "parse_value n t = Some (v1, ok1, r1)"
        "parse_elems n (acc @ [v1]) (b \<and> ok1) r1 = Some (vs, ok, r)"
        by (auto split: if_splits option.splits)
      show ?thesis
        using E [OF p(2)] V [OF p(1)] acc by simp
    qed
  qed
  have m: "wellFormedObject kvs"
    if eq: "parse_members (Suc n) acc b s = Some (kvs, ok, r)" and acc: "wellFormedObject acc"
    for acc b s kvs ok r
  proof (cases "skipWhite s")
    case Nil
    with eq show ?thesis by simp
  next
    case (Cons c t)
    show ?thesis
    proof (cases "c = CHR ''}''")
      case True
      with eq Cons acc show ?thesis by simp
    next
      case False
      with eq Cons obtain k v1 ok1 r1 where p: "parse_member n t = Some ((k, v1), ok1, r1)"
        "parse_members n (setProperty k v1 acc) (b \<and> ok1) r1 = Some (kvs, ok, r)"
        by (auto split: if_splits option.splits)
      show ?thesis
        using M [OF p(2)] K [OF p(1)] acc by (simp add: wellFormedObject_update)
    qed
  qed
  have k: "wellFormed (snd kv)" if eq: "parse_member (Suc n) s = Some (kv, ok, r)" for s kv ok r
  proof (cases "skipWhite s")
    case Nil
    with eq show ?thesis by simp
  next
    case (Cons c t)
    with eq have "\<exists>r2 ok1. parse_value n r2 = Some (snd kv, ok1, r)"
      by (auto split: if_splits option.splits list.splits) blast+
    then show ?thesis using V by blast
  qed
  show ?case
    unfolding parses_wellFormed_def using v e m k by blast
qed

lemma json_parse_wellFormed: "json_parse s = Parsed v \<Longrightarrow> wellFormed v"
  using parses_wellFormed_all [of "length s"]
  unfolding parses_wellFormed_def json_parse_def
  by (auto split: option.splits prod.splits if_splits)

subsection \<open>A string is not its own text\<close>

lemma parse_string_shorter:
  "parse_string cs = Some (t, ok, r) \<Longrightarrow> length t + length r < length cs"
proof (induction cs arbitrary: t ok r rule: length_induct)
  case (1 cs)
  have IH: "\<And>ys t' ok' r'. length ys < length cs \<Longrightarrow> parse_string ys = Some (t', ok', r')
              \<Longrightarrow> length t' + length r' < length ys"
    using 1(1) by blast
  have step: "length t + length r < length cs"
    if "consChar c' b (parse_string ys) = Some (t, ok, r)" and "length ys < length cs"
    for c' b ys
  proof -
    from that(1) obtain t' ok' where p: "parse_string ys = Some (t', ok', r)" and t: "t = c' # t'"
      by (auto simp: consChar_def)
    show ?thesis
      using IH [OF that(2) p] that(2) t by simp
  qed
  show ?case
  proof (cases cs)
    case Nil
    with 1(2) show ?thesis by simp
  next
    case (Cons c ds)
    show ?thesis
    proof (cases "c = dquote")
      case True
      with 1(2) Cons show ?thesis by simp
    next
      case notQuote: False
      show ?thesis
      proof (cases "c = backslash")
        case False
        with 1(2) Cons notQuote have "consChar c True (parse_string ds) = Some (t, ok, r)"
          by (simp split: if_splits)
        then show ?thesis
          using step [of c True ds] Cons by simp
      next
        case True
        with 1(2) Cons notQuote obtain e es where ds: "ds = e # es"
          by (cases ds) auto
        show ?thesis
        proof (cases "e = CHR ''u''")
          case False
          with 1(2) Cons notQuote True ds obtain c'
            where "consChar c' True (parse_string es) = Some (t, ok, r)"
            by (auto split: option.splits)
          then show ?thesis
            using step [of c' True es] Cons ds by simp
        next
          case u: True
          with 1(2) Cons notQuote True ds obtain h1 h2 h3 h4 ys c' b
            where "es = h1 # h2 # h3 # h4 # ys"
              "consChar c' b (parse_string ys) = Some (t, ok, r)"
            by (auto split: list.splits option.splits if_splits)
          then show ?thesis
            using step [of c' b ys] Cons ds by simp
        qed
      qed
    qed
  qed
qed

lemma length_skipWhite: "length (skipWhite s) \<le> length s"
  by (simp add: skipWhite_def length_dropWhile_le)

lemma parse_value_string_shorter:
  assumes "parse_value n s = Some (JStr t, ok, r)"
  shows "length t < length s"
proof (cases n)
  case 0
  with assms show ?thesis by simp
next
  case (Suc m)
  show ?thesis
  proof (cases "skipWhite s")
    case Nil
    with assms Suc show ?thesis by simp
  next
    case (Cons c cs)
    with assms Suc have "parse_string cs = Some (t, ok, r)"
      by (auto split: if_splits option.splits list.splits)
    then have "length t < length (skipWhite s)"
      using parse_string_shorter [of cs t ok r] Cons by simp
    then show ?thesis
      using length_skipWhite [of s] by simp
  qed
qed

lemma json_parse_not_itself: "json_parse s \<noteq> Parsed (JStr s)"
proof
  assume "json_parse s = Parsed (JStr s)"
  then obtain ok r where "parse_value (length s) s = Some (JStr s, ok, r)"
    by (auto simp: json_parse_def split: option.splits if_splits)
  then show False
    using parse_value_string_shorter by blast
qed

subsection \<open>The bound on the depth of the calls is never reached\<close>

lemma dropWhile_shorter: "takeWhile P xs \<noteq> [] \<Longrightarrow> length (dropWhile P xs) < length xs"
  using takeWhile_dropWhile_id [of P xs]
  by (metis add.commute length_append length_greater_0_conv less_add_same_cancel1)

lemma parse_fraction_shorter: "parse_fraction s = Some (fs, r) \<Longrightarrow> length r \<le> length s"
  by (cases s)
     (auto simp: parse_fraction_def le_SucI length_dropWhile_le split: if_splits)

lemma parse_exponent_shorter: "parse_exponent s = Some (e, r) \<Longrightarrow> length r \<le> length s"
proof (cases s)
  case Nil
  then show "parse_exponent s = Some (e, r) \<Longrightarrow> length r \<le> length s"
    by (simp add: parse_exponent_def)
next
  case (Cons c t)
  have "length (dropWhile isDigit (tl t)) \<le> length t"
    using length_dropWhile_le [of isDigit "tl t"] by simp
  then show "parse_exponent s = Some (e, r) \<Longrightarrow> length r \<le> length s"
    using Cons length_dropWhile_le [of isDigit t]
    by (auto simp: parse_exponent_def Let_def le_SucI split: if_splits)
qed

lemma parse_number_shorter:
  assumes "parse_number s = Some (i, ok, r)"
  shows "length r < length s"
proof -
  define s' where "s' = (if (case s of [] \<Rightarrow> False | c # r \<Rightarrow> c = CHR ''-'') then tl s else s)"
  have le: "length s' \<le> length s"
    by (simp add: s'_def)
  from assms obtain fs r1 e where ne: "takeWhile isDigit s' \<noteq> []"
    and f: "parse_fraction (dropWhile isDigit s') = Some (fs, r1)"
    and x: "parse_exponent r1 = Some (e, r)"
    unfolding parse_number_def Let_def s'_def [symmetric]
    by (auto split: if_splits option.splits prod.splits)
  show ?thesis
    using dropWhile_shorter [OF ne] parse_fraction_shorter [OF f] parse_exponent_shorter [OF x] le
    by simp
qed

lemma strip_prefix_shorter: "strip_prefix p s = Some r \<Longrightarrow> length r \<le> length s"
  by (auto simp: strip_prefix_def split: if_splits)

lemma parse_value_Suc_cases:
  assumes "parse_value (Suc n) s = Some (v, ok, r)"
  shows "\<exists>c t. skipWhite s = c # t \<and>
     ((\<exists>p. strip_prefix p t = Some r)
      \<or> (\<exists>x. parse_string t = Some (x, ok, r))
      \<or> (\<exists>d. skipWhite t = d # r)
      \<or> (\<exists>v1 ok1 r1 vs. parse_value n t = Some (v1, ok1, r1)
            \<and> parse_elems n [v1] ok1 r1 = Some (vs, ok, r))
      \<or> (\<exists>kv ok1 r1 kvs. parse_member n t = Some (kv, ok1, r1)
            \<and> parse_members n [kv] ok1 r1 = Some (kvs, ok, r))
      \<or> (\<exists>i. parse_number (c # t) = Some (i, ok, r)))"
proof (cases "skipWhite s")
  case Nil
  with assms show ?thesis by simp
next
  case (Cons c t)
  consider "c = CHR ''n''" | "c = CHR ''t''" | "c = CHR ''f''" | "c = dquote" | "c = CHR ''[''"
    | "c = CHR ''{''"
    | "c \<noteq> CHR ''n''" "c \<noteq> CHR ''t''" "c \<noteq> CHR ''f''" "c \<noteq> dquote" "c \<noteq> CHR ''[''"
      "c \<noteq> CHR ''{''"
    by blast
  then show ?thesis
  proof cases
    case 1
    with assms Cons show ?thesis by auto
  next
    case 2
    with assms Cons show ?thesis by auto
  next
    case 3
    with assms Cons show ?thesis by auto
  next
    case 4
    with assms Cons show ?thesis by (auto simp: dquote_def)
  next
    case 5
    with assms Cons have
      "(case skipWhite t of
          [] \<Rightarrow> None
        | d # r' \<Rightarrow>
            if d = CHR '']'' then Some (JArr [], True, r')
            else (case parse_value n t of
                    None \<Rightarrow> None
                  | Some (v, ok, r'') \<Rightarrow>
                      map_option (\<lambda>(vs, ok', t). (JArr vs, ok', t)) (parse_elems n [v] ok r'')))
         = Some (v, ok, r)"
      by (simp add: dquote_def)
    then have "(\<exists>d. skipWhite t = d # r)
      \<or> (\<exists>v1 ok1 r1 vs. parse_value n t = Some (v1, ok1, r1)
            \<and> parse_elems n [v1] ok1 r1 = Some (vs, ok, r))"
      by (auto split: list.splits if_splits option.splits)
    then show ?thesis using Cons by blast
  next
    case 6
    with assms Cons have
      "(case skipWhite t of
          [] \<Rightarrow> None
        | d # r' \<Rightarrow>
            if d = CHR ''}'' then Some (JObj [], True, r')
            else (case parse_member n t of
                    None \<Rightarrow> None
                  | Some (kv, ok, r'') \<Rightarrow>
                      map_option (\<lambda>(kvs, ok', t). (JObj kvs, ok', t))
                        (parse_members n [kv] ok r'')))
         = Some (v, ok, r)"
      by (simp add: dquote_def)
    then have "(\<exists>d. skipWhite t = d # r)
      \<or> (\<exists>kv ok1 r1 kvs. parse_member n t = Some (kv, ok1, r1)
            \<and> parse_members n [kv] ok1 r1 = Some (kvs, ok, r))"
      by (auto split: list.splits if_splits option.splits)
    then show ?thesis using Cons by blast
  next
    case 7
    with assms Cons have "\<exists>i. parse_number (c # t) = Some (i, ok, r)"
      by auto
    then show ?thesis using Cons by blast
  qed
qed

lemma length_skipWhite_Cons: "skipWhite s = c # t \<Longrightarrow> length t < length s"
  using length_skipWhite [of s] by simp

lemma shortens_all: "shortens n"
proof (induction n)
  case 0
  show ?case by (simp add: shortens_def)
next
  case (Suc n)
  have V: "\<And>s v ok r. parse_value n s = Some (v, ok, r) \<Longrightarrow> length r < length s"
    and E: "\<And>acc b s vs ok r. parse_elems n acc b s = Some (vs, ok, r) \<Longrightarrow> length r < length s"
    and M: "\<And>acc b s kvs ok r. parse_members n acc b s = Some (kvs, ok, r)
              \<Longrightarrow> length r < length s"
    and K: "\<And>s kv ok r. parse_member n s = Some (kv, ok, r) \<Longrightarrow> length r < length s"
    using Suc unfolding shortens_def by blast+
  have v: "length r < length s" if eq: "parse_value (Suc n) s = Some (v, ok, r)" for s v ok r
  proof -
    from parse_value_Suc_cases [OF eq] obtain c t where sk: "skipWhite s = c # t"
      and cases: "(\<exists>p. strip_prefix p t = Some r)
      \<or> (\<exists>x. parse_string t = Some (x, ok, r))
      \<or> (\<exists>d. skipWhite t = d # r)
      \<or> (\<exists>v1 ok1 r1 vs. parse_value n t = Some (v1, ok1, r1)
            \<and> parse_elems n [v1] ok1 r1 = Some (vs, ok, r))
      \<or> (\<exists>kv ok1 r1 kvs. parse_member n t = Some (kv, ok1, r1)
            \<and> parse_members n [kv] ok1 r1 = Some (kvs, ok, r))
      \<or> (\<exists>i. parse_number (c # t) = Some (i, ok, r))"
      by blast
    have t: "length t < length s"
      using sk by (rule length_skipWhite_Cons)
    from cases consider
        p where "strip_prefix p t = Some r"
      | x where "parse_string t = Some (x, ok, r)"
      | d where "skipWhite t = d # r"
      | v1 ok1 r1 vs where "parse_value n t = Some (v1, ok1, r1)"
          "parse_elems n [v1] ok1 r1 = Some (vs, ok, r)"
      | kv ok1 r1 kvs where "parse_member n t = Some (kv, ok1, r1)"
          "parse_members n [kv] ok1 r1 = Some (kvs, ok, r)"
      | i where "parse_number (c # t) = Some (i, ok, r)"
      by blast
    then show ?thesis
    proof cases
      case 1
      then show ?thesis using strip_prefix_shorter [of p t r] t by simp
    next
      case 2
      then show ?thesis using parse_string_shorter [of t x ok r] t by simp
    next
      case 3
      then show ?thesis using length_skipWhite_Cons [of t d r] t by simp
    next
      case 4
      then show ?thesis using V [OF 4(1)] E [OF 4(2)] t by simp
    next
      case 5
      then show ?thesis using K [OF 5(1)] M [OF 5(2)] t by simp
    next
      case 6
      then show ?thesis
        using parse_number_shorter [OF 6] sk length_skipWhite [of s] by simp
    qed
  qed
  have e: "length r < length s" if eq: "parse_elems (Suc n) acc b s = Some (vs, ok, r)"
    for acc b s vs ok r
  proof (cases "skipWhite s")
    case Nil
    with eq show ?thesis by simp
  next
    case (Cons c t)
    have t: "length t < length s"
      using Cons by (rule length_skipWhite_Cons)
    show ?thesis
    proof (cases "c = CHR '']''")
      case True
      with eq Cons t show ?thesis by simp
    next
      case False
      with eq Cons obtain v1 ok1 r1 where p: "parse_value n t = Some (v1, ok1, r1)"
        "parse_elems n (acc @ [v1]) (b \<and> ok1) r1 = Some (vs, ok, r)"
        by (auto split: if_splits option.splits)
      show ?thesis
        using E [OF p(2)] V [OF p(1)] t by simp
    qed
  qed
  have m: "length r < length s" if eq: "parse_members (Suc n) acc b s = Some (kvs, ok, r)"
    for acc b s kvs ok r
  proof (cases "skipWhite s")
    case Nil
    with eq show ?thesis by simp
  next
    case (Cons c t)
    have t: "length t < length s"
      using Cons by (rule length_skipWhite_Cons)
    show ?thesis
    proof (cases "c = CHR ''}''")
      case True
      with eq Cons t show ?thesis by simp
    next
      case False
      with eq Cons obtain k v1 ok1 r1 where p: "parse_member n t = Some ((k, v1), ok1, r1)"
        "parse_members n (setProperty k v1 acc) (b \<and> ok1) r1 = Some (kvs, ok, r)"
        by (auto split: if_splits option.splits)
      show ?thesis
        using M [OF p(2)] K [OF p(1)] t by simp
    qed
  qed
  have k: "length r < length s" if eq: "parse_member (Suc n) s = Some (kv, ok, r)" for s kv ok r
  proof (cases "skipWhite s")
    case Nil
    with eq show ?thesis by simp
  next
    case (Cons c t)
    have t: "length t < length s"
      using Cons by (rule length_skipWhite_Cons)
    from eq Cons have "\<exists>key ok1 r1 d r2 v1 ok2. parse_string t = Some (key, ok1, r1)
      \<and> skipWhite r1 = d # r2 \<and> parse_value n r2 = Some (v1, ok2, r)"
      by (auto split: if_splits option.splits list.splits) blast+
    then obtain key ok1 r1 d r2 v1 ok2 where p: "parse_string t = Some (key, ok1, r1)"
      "skipWhite r1 = d # r2" "parse_value n r2 = Some (v1, ok2, r)"
      by blast
    show ?thesis
      using parse_string_shorter [OF p(1)] length_skipWhite_Cons [OF p(2)] V [OF p(3)] t
      by simp
  qed
  show ?case
    unfolding shortens_def using v e m k by blast
qed

lemma parse_value_shorter: "parse_value n s = Some (v, ok, r) \<Longrightarrow> length r < length s"
  using shortens_all [of n] unfolding shortens_def by blast

lemma parse_member_shorter: "parse_member n s = Some (kv, ok, r) \<Longrightarrow> length r < length s"
  using shortens_all [of n] unfolding shortens_def by blast


lemma parse_value_deeper:
  assumes "parse_value n t = parse_value m t"
    and "parse_member n t = parse_member m t"
    and "\<And>v ok r. parse_value m t = Some (v, ok, r)
           \<Longrightarrow> parse_elems n [v] ok r = parse_elems m [v] ok r"
    and "\<And>kv ok r. parse_member m t = Some (kv, ok, r)
           \<Longrightarrow> parse_members n [kv] ok r = parse_members m [kv] ok r"
    and "skipWhite s = c # t"
  shows "parse_value (Suc n) s = parse_value (Suc m) s"
proof -
  have a: "(case parse_value n t of
              None \<Rightarrow> None
            | Some (v, ok, r'') \<Rightarrow>
                map_option (\<lambda>(vs, ok', t). (JArr vs, ok', t)) (parse_elems n [v] ok r''))
         = (case parse_value m t of
              None \<Rightarrow> None
            | Some (v, ok, r'') \<Rightarrow>
                map_option (\<lambda>(vs, ok', t). (JArr vs, ok', t)) (parse_elems m [v] ok r''))"
    using assms(3) by (auto simp: assms(1) split: option.splits)
  have b: "(case parse_member n t of
              None \<Rightarrow> None
            | Some (kv, ok, r'') \<Rightarrow>
                map_option (\<lambda>(kvs, ok', t). (JObj kvs, ok', t)) (parse_members n [kv] ok r''))
         = (case parse_member m t of
              None \<Rightarrow> None
            | Some (kv, ok, r'') \<Rightarrow>
                map_option (\<lambda>(kvs, ok', t). (JObj kvs, ok', t)) (parse_members m [kv] ok r''))"
    using assms(4) by (auto simp: assms(2) split: option.splits)
  show ?thesis
    by (simp add: assms(5) a b split: list.splits)
qed

lemma parse_elems_deeper:
  assumes "parse_value n t = parse_value m t"
    and "\<And>v ok r. parse_value m t = Some (v, ok, r)
           \<Longrightarrow> parse_elems n (acc @ [v]) (b \<and> ok) r = parse_elems m (acc @ [v]) (b \<and> ok) r"
    and "skipWhite s = c # t"
  shows "parse_elems (Suc n) acc b s = parse_elems (Suc m) acc b s"
proof -
  have a: "(case parse_value n t of
              None \<Rightarrow> None
            | Some (v, ok', r') \<Rightarrow> parse_elems n (acc @ [v]) (b \<and> ok') r')
         = (case parse_value m t of
              None \<Rightarrow> None
            | Some (v, ok', r') \<Rightarrow> parse_elems m (acc @ [v]) (b \<and> ok') r')"
    using assms(2) by (auto simp: assms(1) split: option.splits)
  show ?thesis
    by (simp add: assms(3) a)
qed

lemma parse_members_deeper:
  assumes "parse_member n t = parse_member m t"
    and "\<And>k v ok r. parse_member m t = Some ((k, v), ok, r)
           \<Longrightarrow> parse_members n (setProperty k v acc) (b \<and> ok) r
               = parse_members m (setProperty k v acc) (b \<and> ok) r"
    and "skipWhite s = c # t"
  shows "parse_members (Suc n) acc b s = parse_members (Suc m) acc b s"
proof -
  have a: "(case parse_member n t of
              None \<Rightarrow> None
            | Some ((k, v), ok', r') \<Rightarrow> parse_members n (setProperty k v acc) (b \<and> ok') r')
         = (case parse_member m t of
              None \<Rightarrow> None
            | Some ((k, v), ok', r') \<Rightarrow> parse_members m (setProperty k v acc) (b \<and> ok') r')"
    using assms(2) by (auto simp: assms(1) split: option.splits)
  show ?thesis
    by (simp add: assms(3) a)
qed

lemma parse_member_deeper:
  assumes "\<And>k ok r' d r''. parse_string t = Some (k, ok, r') \<Longrightarrow> skipWhite r' = d # r''
           \<Longrightarrow> parse_value n r'' = parse_value m r''"
    and "skipWhite s = c # t"
  shows "parse_member (Suc n) s = parse_member (Suc m) s"
  using assms(1) by (auto simp: assms(2) split: option.splits list.splits)

lemma deepEnough_all: "deepEnough n"
proof (induction n)
  case 0
  show ?case by (simp add: deepEnough_def)
next
  case (Suc n)
  have V: "\<And>s. length s \<le> n \<Longrightarrow> parse_value (Suc n) s = parse_value n s"
    and E: "\<And>acc b s. length s \<le> n \<Longrightarrow> parse_elems (Suc n) acc b s = parse_elems n acc b s"
    and M: "\<And>acc b s. length s \<le> n
              \<Longrightarrow> parse_members (Suc n) acc b s = parse_members n acc b s"
    and K: "\<And>s. length s \<le> n \<Longrightarrow> parse_member (Suc n) s = parse_member n s"
    using Suc unfolding deepEnough_def by blast+
  have v: "parse_value (Suc (Suc n)) s = parse_value (Suc n) s" if "length s \<le> Suc n" for s
  proof (cases "skipWhite s")
    case Nil
    then show ?thesis by simp
  next
    case (Cons c t)
    have t: "length t \<le> n"
      using length_skipWhite_Cons [OF Cons] that by simp
    show ?thesis
    proof (rule parse_value_deeper [OF V [OF t] K [OF t] _ _ Cons])
      fix v ok r assume "parse_value n t = Some (v, ok, r)"
      then have "length r \<le> n" using parse_value_shorter [of n t v ok r] t by simp
      then show "parse_elems (Suc n) [v] ok r = parse_elems n [v] ok r" by (rule E)
    next
      fix kv ok r assume "parse_member n t = Some (kv, ok, r)"
      then have "length r \<le> n" using parse_member_shorter [of n t kv ok r] t by simp
      then show "parse_members (Suc n) [kv] ok r = parse_members n [kv] ok r" by (rule M)
    qed
  qed
  have e: "parse_elems (Suc (Suc n)) acc b s = parse_elems (Suc n) acc b s"
    if "length s \<le> Suc n" for acc b s
  proof (cases "skipWhite s")
    case Nil
    then show ?thesis by simp
  next
    case (Cons c t)
    have t: "length t \<le> n"
      using length_skipWhite_Cons [OF Cons] that by simp
    show ?thesis
    proof (rule parse_elems_deeper [OF V [OF t] _ Cons])
      fix v ok r assume "parse_value n t = Some (v, ok, r)"
      then have "length r \<le> n" using parse_value_shorter [of n t v ok r] t by simp
      then show "parse_elems (Suc n) (acc @ [v]) (b \<and> ok) r = parse_elems n (acc @ [v]) (b \<and> ok) r"
        by (rule E)
    qed
  qed
  have m: "parse_members (Suc (Suc n)) acc b s = parse_members (Suc n) acc b s"
    if "length s \<le> Suc n" for acc b s
  proof (cases "skipWhite s")
    case Nil
    then show ?thesis by simp
  next
    case (Cons c t)
    have t: "length t \<le> n"
      using length_skipWhite_Cons [OF Cons] that by simp
    show ?thesis
    proof (rule parse_members_deeper [OF K [OF t] _ Cons])
      fix k v ok r assume "parse_member n t = Some ((k, v), ok, r)"
      then have "length r \<le> n" using parse_member_shorter [of n t "(k, v)" ok r] t by simp
      then show "parse_members (Suc n) (setProperty k v acc) (b \<and> ok) r
                   = parse_members n (setProperty k v acc) (b \<and> ok) r"
        by (rule M)
    qed
  qed
  have k: "parse_member (Suc (Suc n)) s = parse_member (Suc n) s" if "length s \<le> Suc n" for s
  proof (cases "skipWhite s")
    case Nil
    then show ?thesis by simp
  next
    case (Cons c t)
    have t: "length t \<le> n"
      using length_skipWhite_Cons [OF Cons] that by simp
    show ?thesis
    proof (rule parse_member_deeper [OF _ Cons])
      fix k ok r' d r'' assume "parse_string t = Some (k, ok, r')" "skipWhite r' = d # r''"
      then have "length r'' \<le> n"
        using parse_string_shorter [of t k ok r'] length_skipWhite_Cons [of r' d r''] t by simp
      then show "parse_value (Suc n) r'' = parse_value n r''" by (rule V)
    qed
  qed
  show ?case
    unfolding deepEnough_def using v e m k by blast
qed

lemma parse_value_deep: "length s \<le> n \<Longrightarrow> parse_value (n + k) s = parse_value n s"
proof (induction k)
  case 0
  show ?case by simp
next
  case (Suc k)
  have "parse_value (Suc (n + k)) s = parse_value (n + k) s"
    using deepEnough_all [of "n + k"] Suc.prems unfolding deepEnough_def by simp
  then show ?case using Suc by simp
qed

lemma json_parse_deep:
  assumes "length s \<le> n"
  shows "json_parse s =
     (case parse_value n s of
        None \<Rightarrow> Malformed
      | Some (v, ok, r) \<Rightarrow>
          if skipWhite r \<noteq> [] then Malformed
          else if ok then Parsed v
          else Unmodelled)"
proof -
  have "parse_value n s = parse_value (length s) s"
    using parse_value_deep [of s "length s" "n - length s"] assms by simp
  then show ?thesis
    by (simp add: json_parse_def)
qed

section \<open>Properties of ItemData\<close>

subsection \<open>Counting spaces\<close>

lemma floor_half_up: "\<lfloor>(of_int x :: rat) / 2 + 0.5\<rfloor> = (x + 1) div 2"
proof -
  have "(of_int x :: rat) / 2 + 0.5 = of_int (x + 1) / of_int 2"
    by (simp add: field_simps)
  then show ?thesis
    by (simp only: floor_divide_of_int_eq)
qed

lemma floor_half: "\<lfloor>(of_int x :: rat) / 2\<rfloor> = x div 2"
  using floor_divide_of_int_eq [of x 2, where ?'a = rat] by simp

lemma repeat_space: "0 \<le> n \<Longrightarrow> repeat '' '' n = Inr (replicate (nat n) CHR '' '')"
proof -
  have "concat (replicate k '' '') = replicate k CHR '' ''" for k
    by (induction k) simp_all
  then show "0 \<le> n \<Longrightarrow> repeat '' '' n = Inr (replicate (nat n) CHR '' '')"
    by (simp add: repeat_def)
qed

lemma longestText_length: "int (length longestText) = 21"
  by (simp add: longestText_def)

lemma centeredSpaces_eq: "centeredSpaces x = (x + 1) div 2 + 3"
  by (simp only: centeredSpaces_def floor_half_up)

lemma headerSpaces_eq: "headerSpaces x = x div 2 + 1"
  by (simp only: headerSpaces_def floor_half)

lemma centeredLine_eq:
  "centeredLine T t
     = replicate (nat (centeredSpaces (int (length longestText) - int (length (removeFormat T t)))))
         CHR '' '' @ t"
  by (simp only: centeredLine_def centeredSpaces_def)

lemma headerLine_eq:
  "headerLine T heading
     = replicate (nat (headerSpaces (int (length longestText) - int (length heading)))) CHR '' ''
       @ BOLD T @ heading @ RESET T"
  by (simp only: headerLine_def headerSpaces_def)

lemma categoryHeader_eq:
  "categoryHeader T key
     = replicate (nat (centeredSpaces (int (length longestText)))) CHR '' ''
       @ BOLD T @ key @ RESET T"
  by (simp only: categoryHeader_def centeredSpaces_def)

lemma fits_iff:
  "fits T t \<longleftrightarrow> 0 \<le> centeredSpaces (int (length longestText) - int (length (removeFormat T t)))"
  unfolding fits_def centeredSpaces_eq longestText_length by linarith

lemma addCentered_fits: "fits T t \<Longrightarrow> addCentered T t d = (Inr (), addLore (centeredLine T t) d)"
  using fits_iff [of T t]
  by (simp add: addCentered_def Let_def repeat_space centeredLine_eq run_def)

lemma addCentered_over: "\<not> fits T t \<Longrightarrow> addCentered T t d = (Inl RangeError, d)"
  using fits_iff [of T t]
  by (simp add: addCentered_def Let_def repeat_def throw_def)

subsection \<open>The methods, step by step\<close>

lemma bind_ok: "m d = (Inr x, d') \<Longrightarrow> bind m f d = f x d'"
  by (simp add: bind_def)

lemma bind_fail: "fst (m d) = Inl e \<Longrightarrow> fst (bind m f d) = Inl e"
  by (cases "m d") (auto simp: bind_def split: sum.splits)

lemma bind_read: "g d = Inr x \<Longrightarrow> bind (read g) f d = f x d"
  by (simp add: bind_def read_def)

lemma bind_run: "bind (run g) f d = f () (g d)"
  by (simp add: bind_def run_def)

lemma updateItem_frame [simp]:
  "item (updateItem d) = item d"
  "slot (updateItem d) = slot d"
  "hasContainer (player (updateItem d)) = hasContainer (player d)"
  "hasEquippable (player (updateItem d)) = hasEquippable (player d)"
  by (simp_all add: updateItem_def split: option.splits)

lemma updateItem_pushes [simp]:
  "pushes (updateItem d) = (if pushing d then Suc (pushes d) else pushes d)"
  by (auto simp: updateItem_def pushes_def pushing_def split: option.splits)

lemma updateItem_pushing [simp]: "pushing (updateItem d) = pushing d"
  by (simp add: pushing_def)

lemma setLore_frame [simp]:
  "lore (item (setLore l d)) = l"
  "dynamicProperties (item (setLore l d)) = dynamicProperties (item d)"
  "durability (item (setLore l d)) = durability (item d)"
  "enchantable (item (setLore l d)) = enchantable (item d)"
  "pushing (setLore l d) = pushing d"
  "pushes (setLore l d) = (if pushing d then Suc (pushes d) else pushes d)"
  by (simp_all add: setLore_def pushing_def pushes_def updateItem_def split: option.splits)

lemma addLore_frame [simp]:
  "lore (item (addLore l d)) = lore (item d) @ [l]"
  "dynamicProperties (item (addLore l d)) = dynamicProperties (item d)"
  "durability (item (addLore l d)) = durability (item d)"
  "enchantable (item (addLore l d)) = enchantable (item d)"
  "pushing (addLore l d) = pushing d"
  "pushes (addLore l d) = (if pushing d then Suc (pushes d) else pushes d)"
  by (simp_all add: addLore_def getLore_def Let_def)

lemma addLines_frame [simp]:
  "lore (item (fold addLore ls d)) = lore (item d) @ ls"
  "dynamicProperties (item (fold addLore ls d)) = dynamicProperties (item d)"
  "durability (item (fold addLore ls d)) = durability (item d)"
  "enchantable (item (fold addLore ls d)) = enchantable (item d)"
  "pushing (fold addLore ls d) = pushing d"
  "pushes (fold addLore ls d) = (if pushing d then pushes d + length ls else pushes d)"
  by (induction ls arbitrary: d; simp)+

lemma getMapping_cong:
  "dynamicProperties (item d') = dynamicProperties (item d)
   \<Longrightarrow> getMapping dec key d' = getMapping dec key d"
  by (simp add: getMapping_def getDynamicProperty_def)

lemma forEach_lines:
  assumes "\<And>x d. x \<in> set xs \<Longrightarrow> f x d = (Inr (), fold addLore (g x) d)"
  shows "forEach f xs d = (Inr (), fold addLore (concat (map g xs)) d)"
  using assms
proof (induction xs arbitrary: d)
  case Nil
  show ?case by (simp add: ret_def)
next
  case (Cons x xs)
  have "f x d = (Inr (), fold addLore (g x) d)"
    using Cons.prems by simp
  moreover have "forEach f xs (fold addLore (g x) d)
      = (Inr (), fold addLore (concat (map g xs)) (fold addLore (g x) d))"
    using Cons.IH Cons.prems by simp
  ultimately show ?case
    by (simp add: bind_def)
qed

lemma forEach_status:
  assumes "\<And>x d. fst (f x d) = (if ok x then Inr () else Inl e)"
  shows "fst (forEach f xs d) = (if list_all ok xs then Inr () else Inl e)"
proof (induction xs arbitrary: d)
  case Nil
  show ?case by (simp add: ret_def)
next
  case (Cons x xs)
  show ?case
  proof (cases "ok x")
    case True
    then obtain d' where "f x d = (Inr (), d')"
      using assms [of x d] by (cases "f x d") auto
    then show ?thesis
      using Cons.IH [of d'] True by (simp add: bind_def)
  next
    case False
    then have "fst (f x d) = Inl e" using assms by simp
    then show ?thesis
      using False bind_fail [of "f x" d e] by simp
  qed
qed

lemma addCentered_status:
  "fst (addCentered T t d) = (if fits T t then Inr () else Inl RangeError)"
  by (simp add: addCentered_fits addCentered_over)

lemma forEach_addCentered:
  "list_all (fits T) ts
   \<Longrightarrow> forEach (addCentered T) ts d = (Inr (), fold addLore (map (centeredLine T) ts) d)"
  using forEach_lines [of ts "addCentered T" "\<lambda>t. [centeredLine T t]" d]
  by (simp add: addCentered_fits list_all_iff comp_def)

lemma categoryHeader_spaces:
  "repeat '' '' (centeredSpaces (int (length longestText)))
     = Inr (replicate (nat (centeredSpaces (int (length longestText)))) CHR '' '')"
  by (rule repeat_space) (simp add: centeredSpaces_eq longestText_length)

lemma addCategory_fits:
  assumes "list_all (fits T) (entryTexts entry)"
  shows "addCategory T entry d = (Inr (), fold addLore (entryLines T entry) d)"
proof (cases entry)
  case (Pair key l)
  show ?thesis
  proof (cases l)
    case (Line s)
    then show ?thesis
      using assms Pair by (simp add: addCategory_def addCentered_fits)
  next
    case (Lines ls)
    then show ?thesis
      using assms Pair
      by (simp add: addCategory_def categoryHeader_spaces bind_run forEach_addCentered
          categoryHeader_eq)
  qed
qed

lemma addCategory_status:
  "fst (addCategory T entry d)
     = (if list_all (fits T) (entryTexts entry) then Inr () else Inl RangeError)"
proof (cases entry)
  case (Pair key l)
  show ?thesis
  proof (cases l)
    case (Line s)
    then show ?thesis
      using Pair by (simp add: addCategory_def addCentered_status)
  next
    case (Lines ls)
    then show ?thesis
      using Pair forEach_status [of "addCentered T" "fits T" RangeError ls, OF addCentered_status]
      by (simp add: addCategory_def categoryHeader_spaces bind_run)
  qed
qed

lemma list_all_concat: "list_all P (concat xss) = list_all (list_all P) xss"
  by (induction xss) simp_all

lemma forEach_addCategory:
  assumes "list_all (fits T) (concat (map entryTexts customLore))"
  shows "forEach (addCategory T) customLore d
           = (Inr (), fold addLore (concat (map (entryLines T) customLore)) d)"
proof (rule forEach_lines)
  fix x d assume "x \<in> set customLore"
  then have "list_all (fits T) (entryTexts x)"
    using assms by (simp add: list_all_concat list_all_iff)
  then show "addCategory T x d = (Inr (), fold addLore (entryLines T x) d)"
    by (rule addCategory_fits)
qed

lemma forEach_addCategory_status:
  "fst (forEach (addCategory T) customLore d)
     = (if list_all (fits T) (concat (map entryTexts customLore)) then Inr () else Inl RangeError)"
  using forEach_status [of "addCategory T" "\<lambda>entry. list_all (fits T) (entryTexts entry)"
      RangeError customLore d, OF addCategory_status]
  by (simp add: list_all_concat list_all_iff)

lemma addHeader_short:
  assumes "length heading \<le> 23"
  shows "addHeader T heading d = (Inr (), addLore (headerLine T heading) d)"
proof -
  have "0 \<le> headerSpaces (int (length longestText) - int (length heading))"
    using assms unfolding headerSpaces_eq longestText_length by linarith
  then show ?thesis
    by (simp add: addHeader_def Let_def repeat_space headerLine_eq run_def)
qed

lemma forEach_addEnchantmentLine:
  assumes "list_all (fits T) (map (enchantmentText T) enchantments)"
  shows "forEach (addEnchantmentLine T) enchantments d
           = (Inr (), fold addLore (map (\<lambda>entry. centeredLine T (enchantmentText T entry)) enchantments) d)"
  using forEach_lines [of enchantments "addEnchantmentLine T"
      "\<lambda>entry. [centeredLine T (enchantmentText T entry)]" d] assms
  by (simp add: addEnchantmentLine_def enchantmentText_def Let_def addCentered_fits
      list_all_iff comp_def)

lemma forEach_addEnchantmentLine_status:
  "fst (forEach (addEnchantmentLine T) enchantments d)
     = (if list_all (fits T) (map (enchantmentText T) enchantments) then Inr () else Inl RangeError)"
  using forEach_status [of "addEnchantmentLine T" "\<lambda>entry. fits T (enchantmentText T entry)"
      RangeError enchantments d]
  by (simp add: addEnchantmentLine_def enchantmentText_def Let_def addCentered_status
      list_all_iff)

lemma forEach_addEffectLine:
  assumes "list_all (fits T) (map (effectText T) effects)"
  shows "forEach (addEffectLine T) effects d
           = (Inr (), fold addLore (map (\<lambda>entry. centeredLine T (effectText T entry)) effects) d)"
  using forEach_lines [of effects "addEffectLine T"
      "\<lambda>entry. [centeredLine T (effectText T entry)]" d] assms
  by (simp add: addEffectLine_def effectText_def Let_def addCentered_fits list_all_iff comp_def)

lemma forEach_addEffectLine_status:
  "fst (forEach (addEffectLine T) effects d)
     = (if list_all (fits T) (map (effectText T) effects) then Inr () else Inl RangeError)"
  using forEach_status [of "addEffectLine T" "\<lambda>entry. fits T (effectText T entry)"
      RangeError effects d]
  by (simp add: addEffectLine_def effectText_def Let_def addCentered_status list_all_iff)


lemma reads_after_lines [simp]:
  "getCustomLore (fold addLore ls d) = getCustomLore d"
  "getCustomEnchantments (fold addLore ls d) = getCustomEnchantments d"
  "getEffects (fold addLore ls d) = getEffects d"
  "getCustomLore (setLore l d) = getCustomLore d"
  "getCustomEnchantments (setLore l d) = getCustomEnchantments d"
  "getEffects (setLore l d) = getEffects d"
  "getCustomLore (addLore x d) = getCustomLore d"
  "getCustomEnchantments (addLore x d) = getCustomEnchantments d"
  "getEffects (addLore x d) = getEffects d"
  unfolding getCustomLore_def getCustomEnchantments_def getEffects_def
  by (rule getMapping_cong, simp)+

lemma centeredTexts_fit:
  "list_all (fits T) (centeredTexts T customLore enchantments effects)
   \<longleftrightarrow> list_all (fits T) (concat (map entryTexts customLore))
     \<and> list_all (fits T) (map (enchantmentText T) enchantments)
     \<and> list_all (fits T) (map (effectText T) effects)"
  by (simp add: centeredTexts_def)

lemma updateLore_ok:
  assumes en: "getCustomEnchantments d = Inr enchantments"
    and cl: "getCustomLore d = Inr customLore"
    and ef: "getEffects d = Inr effects"
    and fit: "list_all (fits T) (centeredTexts T customLore enchantments effects)"
  shows "updateLore T d = (Inr (), regenerated T customLore enchantments effects d)"
proof -
  let ?d1 = "setLore [] d"
  let ?d2 = "fold addLore (concat (map (entryLines T) customLore)) ?d1"
  let ?d3 = "addLore (headerLine T ''Enchantments'') ?d2"
  let ?d4 = "fold addLore (map (\<lambda>entry. centeredLine T (enchantmentText T entry)) enchantments) ?d3"
  let ?rest = "\<lambda>effects. if effects = [] then ret ()
       else bind (addHeader T ''Effects'') (\<lambda>_.
            bind (forEach (addEffectLine T) effects) (\<lambda>_. run updateItem))"
  have f1: "list_all (fits T) (concat (map entryTexts customLore))"
    and f2: "list_all (fits T) (map (enchantmentText T) enchantments)"
    and f3: "list_all (fits T) (map (effectText T) effects)"
    using fit by (simp_all add: centeredTexts_fit)
  have body: "?d4 = fold addLore
                   (concat (map (entryLines T) customLore)
                    @ [headerLine T ''Enchantments'']
                    @ map (\<lambda>entry. centeredLine T (enchantmentText T entry)) enchantments)
                   ?d1"
    by simp
  have last: "?rest effects ?d4 = (Inr (), regenerated T customLore enchantments effects d)"
  proof (cases "effects = []")
    case True
    then show ?thesis
      unfolding regenerated_def Let_def body [symmetric] by (simp add: ret_def)
  next
    case False
    have "bind (addHeader T ''Effects'') (\<lambda>_.
            bind (forEach (addEffectLine T) effects) (\<lambda>_. run updateItem)) ?d4
          = (Inr (), updateItem
               (fold addLore (map (\<lambda>entry. centeredLine T (effectText T entry)) effects)
                  (addLore (headerLine T ''Effects'') ?d4)))"
      by (simp add: bind_def addHeader_short forEach_addEffectLine [OF f3] run_def)
    then show ?thesis
      unfolding regenerated_def Let_def body [symmetric] using False by simp
  qed
  have "updateLore T d
        = bind (forEach (addCategory T) customLore) (\<lambda>_.
          bind (addHeader T ''Enchantments'') (\<lambda>_.
          bind (forEach (addEnchantmentLine T) enchantments) (\<lambda>_.
          bind (read getEffects) ?rest))) ?d1"
    unfolding updateLore_def
    by (simp add: bind_read [of getCustomEnchantments d enchantments] en bind_run
        bind_read [of getCustomLore ?d1 customLore] cl)
  also have "\<dots> = bind (addHeader T ''Enchantments'') (\<lambda>_.
          bind (forEach (addEnchantmentLine T) enchantments) (\<lambda>_.
          bind (read getEffects) ?rest)) ?d2"
    by (rule bind_ok) (rule forEach_addCategory [OF f1])
  also have "\<dots> = bind (forEach (addEnchantmentLine T) enchantments) (\<lambda>_.
          bind (read getEffects) ?rest) ?d3"
    by (rule bind_ok) (simp add: addHeader_short)
  also have "\<dots> = bind (read getEffects) ?rest ?d4"
    by (rule bind_ok) (rule forEach_addEnchantmentLine [OF f2])
  also have "\<dots> = ?rest effects ?d4"
    by (rule bind_read) (simp add: ef)
  finally show ?thesis
    using last by simp
qed

lemma updateLore_fail:
  assumes en: "getCustomEnchantments d = Inr enchantments"
    and cl: "getCustomLore d = Inr customLore"
    and ef: "getEffects d = Inr effects"
    and fit: "\<not> list_all (fits T) (centeredTexts T customLore enchantments effects)"
  shows "fst (updateLore T d) = Inl RangeError"
proof -
  let ?d1 = "setLore [] d"
  let ?d2 = "fold addLore (concat (map (entryLines T) customLore)) ?d1"
  let ?d3 = "addLore (headerLine T ''Enchantments'') ?d2"
  let ?d4 = "fold addLore (map (\<lambda>entry. centeredLine T (enchantmentText T entry)) enchantments) ?d3"
  let ?rest = "\<lambda>effects. if effects = [] then ret ()
       else bind (addHeader T ''Effects'') (\<lambda>_.
            bind (forEach (addEffectLine T) effects) (\<lambda>_. run updateItem))"
  let ?k3 = "\<lambda>_::unit. bind (read getEffects) ?rest"
  let ?k2 = "\<lambda>_::unit. bind (forEach (addEnchantmentLine T) enchantments) ?k3"
  let ?k1 = "\<lambda>_::unit. bind (addHeader T ''Enchantments'') ?k2"
  have start: "updateLore T d = bind (forEach (addCategory T) customLore) ?k1 ?d1"
    unfolding updateLore_def
    by (simp add: bind_read [of getCustomEnchantments d enchantments] en bind_run
        bind_read [of getCustomLore ?d1 customLore] cl)
  show ?thesis
  proof (cases "list_all (fits T) (concat (map entryTexts customLore))")
    case False
    then have "fst (forEach (addCategory T) customLore ?d1) = Inl RangeError"
      by (simp add: forEach_addCategory_status)
    then show ?thesis
      unfolding start by (rule bind_fail)
  next
    case f1: True
    have s2: "updateLore T d = bind (forEach (addEnchantmentLine T) enchantments) ?k3 ?d3"
      unfolding start
      by (simp add: bind_ok [OF forEach_addCategory [OF f1]] bind_def [of "addHeader T ''Enchantments''"]
          addHeader_short)
    show ?thesis
    proof (cases "list_all (fits T) (map (enchantmentText T) enchantments)")
      case False
      then have "fst (forEach (addEnchantmentLine T) enchantments ?d3) = Inl RangeError"
        by (simp add: forEach_addEnchantmentLine_status)
      then show ?thesis
        unfolding s2 by (rule bind_fail)
    next
      case f2: True
      with f1 fit have f3: "\<not> list_all (fits T) (map (effectText T) effects)"
        by (simp add: centeredTexts_fit)
      then have ne: "effects \<noteq> []" by auto
      have s3: "updateLore T d = bind (forEach (addEffectLine T) effects) (\<lambda>_. run updateItem)
                  (addLore (headerLine T ''Effects'') ?d4)"
        unfolding s2
        using ne
        by (simp add: bind_ok [OF forEach_addEnchantmentLine [OF f2]]
            bind_read [of getEffects ?d4 effects] ef
            bind_def [of "addHeader T ''Effects''"] addHeader_short)
      have "fst (forEach (addEffectLine T) effects (addLore (headerLine T ''Effects'') ?d4))
              = Inl RangeError"
        using f3 by (simp add: forEach_addEffectLine_status)
      then show ?thesis
        unfolding s3 by (rule bind_fail)
    qed
  qed
qed

lemma regenerated_frame:
  "lore (item (regenerated T customLore enchantments effects d))
     = regeneratedLore T customLore enchantments effects"
  "dynamicProperties (item (regenerated T customLore enchantments effects d))
     = dynamicProperties (item d)"
  "durability (item (regenerated T customLore enchantments effects d)) = durability (item d)"
  "enchantable (item (regenerated T customLore enchantments effects d)) = enchantable (item d)"
  "pushing (regenerated T customLore enchantments effects d) = pushing d"
  by (simp_all add: regenerated_def regeneratedLore_def Let_def)

lemma regenerated_pushes:
  "pushes (regenerated T customLore enchantments effects d)
     = (if pushing d
        then pushes d + 1 + length (regeneratedLore T customLore enchantments effects)
             + (if effects = [] then 0 else 1)
        else pushes d)"
  by (simp add: regenerated_def regeneratedLore_def Let_def)

subsection \<open>Storing and reading back\<close>

lemma safeJsonParser_stringify:
  "wellFormed v \<Longrightarrow> safeJsonParser (Some (PString (safeJsonStringify v))) = Inr (Some v)"
  by (simp add: json_parse_stringify)

lemma safeJsonParser_wellFormed: "safeJsonParser p = Inr (Some v) \<Longrightarrow> wellFormed v"
proof (cases p)
  case None
  then show "safeJsonParser p = Inr (Some v) \<Longrightarrow> wellFormed v" by simp
next
  case (Some q)
  then show "safeJsonParser p = Inr (Some v) \<Longrightarrow> wellFormed v"
    by (cases q) (auto split: decoded.splits dest: json_parse_wellFormed)
qed

lemma setDynamicProperty_None: "setDynamicProperty key None d = (Inl InvalidValue, d)"
  by (simp add: setDynamicProperty_def)

lemma setDynamicProperty_Some: "fst (setDynamicProperty key (Some v) d) = Inr ()"
  by (simp add: setDynamicProperty_def Let_def)

lemma item_update_frame [simp]:
  "pushes (d\<lparr>item := x\<rparr>) = pushes d"
  "pushing (d\<lparr>item := x\<rparr>) = pushing d"
  by (simp_all add: pushes_def pushing_def)

lemma setDynamicProperty_frame [simp]:
  "lore (item (snd (setDynamicProperty key val d))) = lore (item d)"
  "durability (item (snd (setDynamicProperty key val d))) = durability (item d)"
  "enchantable (item (snd (setDynamicProperty key val d))) = enchantable (item d)"
  "pushing (snd (setDynamicProperty key val d)) = pushing d"
  by (simp_all add: setDynamicProperty_def Let_def split: option.splits)

lemma setDynamicProperty_pushes:
  "pushes (snd (setDynamicProperty key (Some v) d)) = (if pushing d then Suc (pushes d) else pushes d)"
  by (simp add: setDynamicProperty_def Let_def)

lemma getDynamicProperty_set:
  assumes "wellFormed v"
  shows "getDynamicProperty key (snd (setDynamicProperty key (Some v) d))
           = (case v of JStr s \<Rightarrow> safeJsonParser (Some (PString s)) | _ \<Rightarrow> Inr (Some v))"
proof (cases "typeofObject v")
  case True
  then have "getDynamicProperty key (snd (setDynamicProperty key (Some v) d))
               = safeJsonParser (Some (PString (safeJsonStringify v)))"
    by (simp add: getDynamicProperty_def setDynamicProperty_def Let_def)
  also have "\<dots> = Inr (Some v)"
    using assms by (rule safeJsonParser_stringify)
  finally show ?thesis
    using True by (cases v) simp_all
next
  case False
  then show ?thesis
    by (cases v) (simp_all add: getDynamicProperty_def setDynamicProperty_def Let_def)
qed

lemma getDynamicProperty_set_other:
  "key' \<noteq> key
   \<Longrightarrow> getDynamicProperty key' (snd (setDynamicProperty key val d)) = getDynamicProperty key' d"
  by (simp add: getDynamicProperty_def setDynamicProperty_def Let_def split: option.splits)

lemma getDynamicProperty_wellFormed:
  "getDynamicProperty key d = Inr (Some v) \<Longrightarrow> wellFormed v"
  unfolding getDynamicProperty_def by (rule safeJsonParser_wellFormed)

subsection \<open>The mappings\<close>

lemma decObject_keys:
  "those (map (\<lambda>kv. map_option (Pair (fst kv)) (dec (snd kv))) kvs) = Some m
   \<Longrightarrow> map fst m = map fst kvs"
  by (induction kvs arbitrary: m) (auto split: option.splits)

lemma getMapping_keys:
  assumes "getMapping dec key d = Inr m"
  shows "objectKeys (map fst m)"
proof (cases "\<exists>v. getDynamicProperty key d = Inr v \<and> falsy v")
  case True
  with assms show ?thesis by (auto simp: getMapping_def)
next
  case False
  with assms obtain j where j: "getDynamicProperty key d = Inr (Some j)"
    by (cases "getDynamicProperty key d") (auto simp: getMapping_def split: option.splits)
  with assms False have dec: "decObject dec j = Some m"
    by (auto simp: getMapping_def split: option.splits)
  then obtain kvs where kvs: "j = JObj kvs"
    by (cases j) auto
  have "objectKeys (map fst kvs)"
    using getDynamicProperty_wellFormed [OF j] kvs by simp
  then show ?thesis
    using dec kvs decObject_keys [of dec kvs m] by simp
qed

lemma decObject_encObject:
  assumes "\<And>x. dec (enc x) = Some x"
  shows "decObject dec (encObject enc m) = Some m"
  unfolding encObject_def
  by (induction m) (simp_all add: assms comp_def)

lemma wellFormed_encObject:
  assumes "\<And>x. wellFormed (enc x)"
  shows "wellFormed (encObject enc m) \<longleftrightarrow> objectKeys (map fst m)"
  by (simp add: encObject_def comp_def list_all_iff assms)

lemma getMapping_set:
  assumes "\<And>x. dec (enc x) = Some x" and "\<And>x. wellFormed (enc x)"
    and "objectKeys (map fst m)"
  shows "getMapping dec key (snd (setDynamicProperty key (Some (encObject enc m)) d)) = Inr m"
proof -
  have "wellFormed (encObject enc m)"
    using assms(2,3) by (simp add: wellFormed_encObject)
  then have "getDynamicProperty key (snd (setDynamicProperty key (Some (encObject enc m)) d))
               = Inr (Some (encObject enc m))"
    by (simp add: getDynamicProperty_set encObject_def)
  then show ?thesis
    using decObject_encObject [of dec enc m, OF assms(1)]
    by (simp add: getMapping_def encObject_def)
qed

lemma getMapping_set_other:
  "key' \<noteq> key
   \<Longrightarrow> getMapping dec key' (snd (setDynamicProperty key val d)) = getMapping dec key' d"
  by (simp add: getMapping_def getDynamicProperty_set_other)

lemma decLore_encLore [simp]: "decLore (encLore l) = Some l"
proof (cases l)
  case (Lines ls)
  have "those (map decString (map JStr ls)) = Some ls"
    by (induction ls) simp_all
  then show ?thesis using Lines by simp
qed simp

lemma decEnchantment_encEnchantment [simp]: "decEnchantment (encEnchantment e) = Some e"
  by (simp add: encEnchantment_def)

lemma decEffect_encEffect [simp]: "decEffect (encEffect e) = Some e"
  by (simp add: encEffect_def)

lemma enc_keys: "objectKeys [''name'', ''level'']" "objectKeys [''name'', ''effect'', ''level'']"
  by code_simp+

lemma wellFormed_enc [simp]:
  "wellFormed (encLore l)" "wellFormed (encEnchantment e)" "wellFormed (encEffect f)"
  by (cases l) (simp_all add: encEnchantment_def encEffect_def list_all_iff enc_keys)

lemma reads_after_set [simp]:
  "getCustomLore (snd (setDynamicProperty ''enchantments'' val d)) = getCustomLore d"
  "getCustomLore (snd (setDynamicProperty ''effects'' val d)) = getCustomLore d"
  "getCustomEnchantments (snd (setDynamicProperty ''lore'' val d)) = getCustomEnchantments d"
  "getCustomEnchantments (snd (setDynamicProperty ''effects'' val d)) = getCustomEnchantments d"
  "getEffects (snd (setDynamicProperty ''lore'' val d)) = getEffects d"
  "getEffects (snd (setDynamicProperty ''enchantments'' val d)) = getEffects d"
  by (simp_all add: getCustomLore_def getCustomEnchantments_def getEffects_def getMapping_set_other)

lemma getCustomLore_set:
  "objectKeys (map fst m)
   \<Longrightarrow> getCustomLore (snd (setDynamicProperty ''lore'' (Some (encObject encLore m)) d)) = Inr m"
  unfolding getCustomLore_def by (rule getMapping_set) simp_all


lemma getEffects_set:
  "objectKeys (map fst m)
   \<Longrightarrow> getEffects (snd (setDynamicProperty ''effects'' (Some (encObject encEffect m)) d)) = Inr m"
  unfolding getEffects_def by (rule getMapping_set) simp_all


section \<open>The claims about ItemData and WorldDataT\<close>

text \<open>
  C10: constructing the wrapper around an item that has a durability component
  sets the damage of that component to 0, before any method is called; the rest of
  the component and of the item is as it was.
\<close>

theorem constructor_repairs_item:
  assumes "durability it = Some c"
  shows "durability (item (ItemData_new it p sl)) = Some (c\<lparr>damage := 0\<rparr>)
       \<and> map_option damage (durability (item (ItemData_new it p sl))) = Some 0
       \<and> lore (item (ItemData_new it p sl)) = lore it
       \<and> enchantable (item (ItemData_new it p sl)) = enchantable it
       \<and> written (player (ItemData_new it p sl)) = written p"
  using assms by (simp add: ItemData_new_def Let_def)

theorem constructor_repairs_item_witness:
  "durability wornItem = Some wornComponent
   \<and> damage wornComponent = 12
   \<and> map_option damage (durability (item (ItemData_new wornItem somePlayer None))) = Some 0"
proof -
  have h: "durability wornItem = Some wornComponent"
    by (simp add: wornItem_def)
  show ?thesis
    using h constructor_repairs_item [OF h, of somePlayer None]
    by (simp add: wornComponent_def)
qed

text \<open>
  C3 fails on the code: \<open>removeAllEnchantments\<close> on a wrapper with an enchantable
  component does not call the component. The sword below carries sharpness 1
  before and after; \<open>removeEnchantment\<close>, which calls the component, takes it off.
\<close>

theorem removeAllEnchantments_removes_nothing:
  "EnchantableComponent sharpSword
   \<and> enchantable (item sharpSword)
       = Some [\<lparr>enchantmentType = ''sharpness'', enchantmentLevel = 1\<rparr>]
   \<and> enchantable (item (removeAllEnchantments sharpSword))
       = Some [\<lparr>enchantmentType = ''sharpness'', enchantmentLevel = 1\<rparr>]
   \<and> enchantable (item (removeEnchantment ''sharpness'' sharpSword)) = Some []"
  by (simp add: sharpSword_def ItemData_new_def Let_def removeAllEnchantments_def
      removeEnchantment_def)

lemma WorldDataT_roundtrip:
  assumes "wellFormed v"
  shows "WorldDataT_getDynamicProperty key (snd (WorldDataT_setDynamicProperty key (Some v) w))
           = (case v of JStr s \<Rightarrow> safeJsonParser (Some (PString s)) | _ \<Rightarrow> Inr (Some v))"
proof (cases "typeofObject v")
  case True
  then have "WorldDataT_getDynamicProperty key (snd (WorldDataT_setDynamicProperty key (Some v) w))
               = safeJsonParser (Some (PString (safeJsonStringify v)))"
    by (simp add: WorldDataT_getDynamicProperty_def WorldDataT_setDynamicProperty_def Let_def)
  also have "\<dots> = Inr (Some v)"
    using assms by (rule safeJsonParser_stringify)
  finally show ?thesis
    using True by (cases v) simp_all
next
  case False
  then show ?thesis
    by (cases v)
      (simp_all add: WorldDataT_getDynamicProperty_def WorldDataT_setDynamicProperty_def Let_def)
qed

lemma safeJsonParser_itself:
  "(safeJsonParser (Some (PString s)) = Inr (Some (JStr s))) = (json_parse s = Malformed)"
  using json_parse_not_itself [of s] by (auto split: decoded.splits)

text \<open>
  C8, as stated, fails for a string that is itself JSON text: the string is stored as
  it is and decoded when it is read. The string \<open>123\<close> comes back as the number
  123, from an item and from the world, the string \<open>{}\<close> as the empty object, and
  so with white space, an exponent or an array in the string.
\<close>

theorem roundtrip_of_json_text_counterexample:
  "getDynamicProperty ''k'' (snd (setDynamicProperty ''k'' (Some (JStr ''123'')) fresh))
     = Inr (Some (JNum 123))
   \<and> WorldDataT_getDynamicProperty ''k''
       (snd (WorldDataT_setDynamicProperty ''k'' (Some (JStr ''123'')) emptyWorld))
     = Inr (Some (JNum 123))
   \<and> JNum 123 \<noteq> JStr ''123''
   \<and> getDynamicProperty ''k'' (snd (setDynamicProperty ''k'' (Some (JStr ''{}'')) fresh))
     = Inr (Some (JObj []))
   \<and> getDynamicProperty ''k'' (snd (setDynamicProperty ''k'' (Some (JStr '' 12'')) fresh))
     = Inr (Some (JNum 12))
   \<and> getDynamicProperty ''k'' (snd (setDynamicProperty ''k'' (Some (JStr ''1e3'')) fresh))
     = Inr (Some (JNum 1000))
   \<and> getDynamicProperty ''k'' (snd (setDynamicProperty ''k'' (Some (JStr ''[1, 2]'')) fresh))
     = Inr (Some (JArr [JNum 1, JNum 2]))"
  by code_simp

text \<open>
  C8, amended: for every key and every well-formed value \<open>v\<close>, on an item and on
  the world, reading after writing returns \<open>v\<close> when \<open>v\<close> is an object, an array,
  \<open>null\<close>, a number or a boolean. A string is stored as it is and decoded when it
  is read: it comes back as itself exactly when it is not JSON text, and as the
  value that it writes when it is; where that value is none of the model
  (\<open>Unmodelled\<close>) the model does not say which. Writing \<open>undefined\<close> throws
  \<open>InvalidValue\<close> and leaves the item, what has been passed to the host, and the
  world as they were.
\<close>

theorem dynamicProperty_roundtrip:
  assumes "wellFormed v"
  shows "getDynamicProperty key (snd (setDynamicProperty key (Some v) d))
           = (case v of
                JStr s \<Rightarrow>
                  (case json_parse s of
                     Malformed \<Rightarrow> Inr (Some v)
                   | Parsed u \<Rightarrow> Inr (Some u)
                   | Unmodelled \<Rightarrow> Inl Untyped)
              | _ \<Rightarrow> Inr (Some v))
       \<and> WorldDataT_getDynamicProperty key (snd (WorldDataT_setDynamicProperty key (Some v) w))
           = getDynamicProperty key (snd (setDynamicProperty key (Some v) d))
       \<and> (getDynamicProperty key (snd (setDynamicProperty key (Some v) d)) = Inr (Some v))
           = (case v of JStr s \<Rightarrow> json_parse s = Malformed | _ \<Rightarrow> True)
       \<and> fst (setDynamicProperty key (Some v) d) = Inr ()
       \<and> fst (WorldDataT_setDynamicProperty key (Some v) w) = Inr ()
       \<and> setDynamicProperty key None d = (Inl InvalidValue, d)
       \<and> WorldDataT_setDynamicProperty key None w = (Inl InvalidValue, w)"
proof -
  have r: "(case v of JStr s \<Rightarrow> safeJsonParser (Some (PString s)) | _ \<Rightarrow> Inr (Some v))
          = (case v of
               JStr s \<Rightarrow>
                 (case json_parse s of
                    Malformed \<Rightarrow> Inr (Some v)
                  | Parsed u \<Rightarrow> Inr (Some u)
                  | Unmodelled \<Rightarrow> Inl Untyped)
             | _ \<Rightarrow> Inr (Some v))"
    by (cases v) (simp_all split: decoded.splits)
  have i: "getDynamicProperty key (snd (setDynamicProperty key (Some v) d))
             = (case v of JStr s \<Rightarrow> safeJsonParser (Some (PString s)) | _ \<Rightarrow> Inr (Some v))"
    using assms by (rule getDynamicProperty_set)
  have self: "((case v of JStr s \<Rightarrow> safeJsonParser (Some (PString s)) | _ \<Rightarrow> Inr (Some v))
                 = Inr (Some v))
              = (case v of JStr s \<Rightarrow> json_parse s = Malformed | _ \<Rightarrow> True)"
    by (cases v) (simp_all add: safeJsonParser_itself del: safeJsonParser.simps)
  show ?thesis
    unfolding i WorldDataT_roundtrip [OF assms, of key w] self
    by (simp add: r setDynamicProperty_None setDynamicProperty_Some
        WorldDataT_setDynamicProperty_def Let_def)
qed

theorem dynamicProperty_roundtrip_witness:
  "wellFormed playerStats
   \<and> getDynamicProperty ''playerStats'' (snd (setDynamicProperty ''playerStats'' (Some playerStats) fresh))
       = Inr (Some playerStats)
   \<and> WorldDataT_getDynamicProperty ''playerStats''
         (snd (WorldDataT_setDynamicProperty ''playerStats'' (Some playerStats) emptyWorld))
       = Inr (Some playerStats)
   \<and> setDynamicProperty ''playerStats'' None fresh = (Inl InvalidValue, fresh)"
proof -
  have w: "wellFormed playerStats"
    by code_simp
  show ?thesis
    using w dynamicProperty_roundtrip [OF w, of "''playerStats''" fresh emptyWorld]
    by (simp add: playerStats_def)
qed

subsection \<open>The scenario\<close>

lemma scenario_reads:
  "getCustomLore scenario = Inr [(''Info'', Line ''Rare Item'')]"
  "getCustomEnchantments scenario = Inr [(''sharpness'', sharpness3)]"
  "getEffects scenario = Inr []"
  by code_simp+

lemma scenario_fits:
  "list_all (fits demoTables)
     (centeredTexts demoTables [(''Info'', Line ''Rare Item'')] [(''sharpness'', sharpness3)] [])"
  by code_simp

lemma scenario_pushing: "pushing scenario"
  by code_simp

lemma scenario_lore_lines:
  "getLore (snd (updateLore demoTables scenario))
     = [''         Rare Item'',
        ''     '' @ [sect, CHR ''l''] @ ''Enchantments'' @ [sect, CHR ''r''],
        ''        Sharpness 3'']"
  by code_simp

lemma toString_3: "toString 3 = ''3''"
  by code_simp

text \<open>
  C2, as stated, fails: the lore is cleared and every line is added through
  \<open>setLore\<close>, which pushes the item each time. On the item of the scenario the
  regeneration returns normally, leaves three lines and has pushed four times; the
  \<open>updateItem\<close> at its end is not reached, as there are no effects.
\<close>

theorem updateLore_pushes_counterexample:
  "fst (updateLore demoTables scenario) = Inr ()
   \<and> length (getLore (snd (updateLore demoTables scenario))) = 3
   \<and> pushes (snd (updateLore demoTables scenario)) = pushes scenario + 4"
  by code_simp

text \<open>
  C2, amended: when the three mappings are read and every centred text is at most
  28 long, the regeneration returns normally, and if the wrapper has a slot and
  the player a container and equipment it has pushed the item once for clearing
  the lore, once for every line of the new lore, and once more at the end when
  there are effects; otherwise it has pushed nothing.
\<close>

theorem updateLore_pushes_per_line:
  assumes "getCustomEnchantments d = Inr enchantments"
    and "getCustomLore d = Inr customLore"
    and "getEffects d = Inr effects"
    and "list_all (fits T) (centeredTexts T customLore enchantments effects)"
  shows "fst (updateLore T d) = Inr ()
       \<and> pushes (snd (updateLore T d))
           = (if pushing d
              then pushes d + 1 + length (getLore (snd (updateLore T d)))
                   + (if effects = [] then 0 else 1)
              else pushes d)"
  by (simp add: updateLore_ok [OF assms] regenerated_pushes regenerated_frame getLore_def)

theorem updateLore_pushes_per_line_witness:
  "getCustomEnchantments scenario = Inr [(''sharpness'', sharpness3)]
   \<and> getCustomLore scenario = Inr [(''Info'', Line ''Rare Item'')]
   \<and> getEffects scenario = Inr []
   \<and> list_all (fits demoTables)
        (centeredTexts demoTables [(''Info'', Line ''Rare Item'')] [(''sharpness'', sharpness3)] [])
   \<and> pushing scenario
   \<and> fst (updateLore demoTables scenario) = Inr ()
   \<and> pushes (snd (updateLore demoTables scenario))
       = pushes scenario + 1 + length (getLore (snd (updateLore demoTables scenario)))"
  using updateLore_pushes_per_line [OF scenario_reads(2) scenario_reads(1) scenario_reads(3)
      scenario_fits]
    scenario_reads scenario_fits scenario_pushing
  by simp

text \<open>
  C4, as stated, fails in its first line: for a custom lore entry that is a single
  string the regeneration shows the string, not its key. The lore of the scenario
  is the centred line \<open>Rare Item\<close>, the header and the enchantment; no line of it
  is a centred \<open>Info\<close>.
\<close>

theorem scenario_lore_counterexample:
  "getCustomLore scenario = Inr [(''Info'', Line ''Rare Item'')]
   \<and> getCustomEnchantments scenario = Inr [(''sharpness'', sharpness3)]
   \<and> getEffects scenario = Inr []
   \<and> getLore (snd (updateLore demoTables scenario))
       = [''         Rare Item'',
          ''     '' @ [sect, CHR ''l''] @ ''Enchantments'' @ [sect, CHR ''r''],
          ''        Sharpness 3'']
   \<and> centeredLine demoTables ''Info'' \<notin> set (getLore (snd (updateLore demoTables scenario)))"
  by code_simp

text \<open>
  C4, amended: for an ItemData whose custom lore is \<open>{"Info": "Rare Item"}\<close>, whose
  custom enchantments are exactly sharpness 3 and which has no effects, with the
  two centred texts at most 28 long, the regeneration returns normally and the lore
  is, in order: the centred line \<open>Rare Item\<close> (the value; the key \<open>Info\<close> is not
  shown and there is no category header), the bold header \<open>Enchantments\<close>, and the
  centred line of the title of \<open>sharpness\<close>, a space and \<open>3\<close>, the title being the
  one of the table or \<open>sharpness-failed\<close>. There is no \<open>Effects\<close> section.
\<close>

theorem scenario_lore:
  assumes "getCustomLore d = Inr [(''Info'', Line ''Rare Item'')]"
    and "getCustomEnchantments d = Inr [(''sharpness'', sharpness3)]"
    and "getEffects d = Inr []"
    and "fits T ''Rare Item''"
    and "fits T (titleOf (EnchantmentTitles T) ''sharpness'' @ '' 3'')"
  shows "fst (updateLore T d) = Inr ()
       \<and> getLore (snd (updateLore T d))
           = [centeredLine T ''Rare Item'',
              headerLine T ''Enchantments'',
              centeredLine T (titleOf (EnchantmentTitles T) ''sharpness'' @ '' 3'')]
       \<and> titleOf (EnchantmentTitles T) ''sharpness''
           = (case EnchantmentTitles T ''sharpness'' of
                None \<Rightarrow> ''sharpness-failed''
              | Some t \<Rightarrow> if t = [] then ''sharpness-failed'' else t)"
proof -
  have tx: "enchantmentText T (''sharpness'', sharpness3)
                = titleOf (EnchantmentTitles T) ''sharpness'' @ '' 3''"
    by (simp add: enchantmentText_def sharpness3_def toString_3)
  have fit: "list_all (fits T)
      (centeredTexts T [(''Info'', Line ''Rare Item'')] [(''sharpness'', sharpness3)] [])"
    using assms(4,5) by (simp add: centeredTexts_def tx)
  have title: "titleOf (EnchantmentTitles T) ''sharpness''
           = (case EnchantmentTitles T ''sharpness'' of
                None \<Rightarrow> ''sharpness-failed''
              | Some t \<Rightarrow> if t = [] then ''sharpness-failed'' else t)"
    by (simp add: titleOf_def split: option.splits)
  have "fst (updateLore T d) = Inr ()
       \<and> getLore (snd (updateLore T d))
           = [centeredLine T ''Rare Item'',
              headerLine T ''Enchantments'',
              centeredLine T (titleOf (EnchantmentTitles T) ''sharpness'' @ '' 3'')]"
    using updateLore_ok [OF assms(2) assms(1) assms(3) fit]
    by (simp add: regenerated_frame getLore_def regeneratedLore_def tx)
  then show ?thesis
    using title by blast
qed

theorem scenario_lore_witness:
  "getCustomLore scenario = Inr [(''Info'', Line ''Rare Item'')]
   \<and> getCustomEnchantments scenario = Inr [(''sharpness'', sharpness3)]
   \<and> getEffects scenario = Inr []
   \<and> fits demoTables ''Rare Item''
   \<and> fits demoTables (titleOf (EnchantmentTitles demoTables) ''sharpness'' @ '' 3'')
   \<and> fst (updateLore demoTables scenario) = Inr ()
   \<and> getLore (snd (updateLore demoTables scenario))
       = [centeredLine demoTables ''Rare Item'',
          headerLine demoTables ''Enchantments'',
          centeredLine demoTables ''Sharpness 3'']"
proof -
  have f: "fits demoTables ''Rare Item''"
    "fits demoTables (titleOf (EnchantmentTitles demoTables) ''sharpness'' @ '' 3'')"
    by code_simp+
  have t: "titleOf (EnchantmentTitles demoTables) ''sharpness'' = ''Sharpness''"
    by code_simp
  show ?thesis
    using scenario_lore [OF scenario_reads f] scenario_reads f
    by (simp add: t)
qed

subsection \<open>Padding\<close>

lemma statsItem_reads:
  "getCustomEnchantments statsItem = Inr []"
  "getCustomLore statsItem = Inr [(''Stats'', Lines [''a'', ''b''])]"
  "getEffects statsItem = Inr []"
  by code_simp+

lemma longItem_reads:
  "getCustomEnchantments longItem = Inr []"
  "getCustomLore longItem = Inr [(longLine, Line longLine)]"
  "getEffects longItem = Inr []"
  by code_simp+

text \<open>
  What the regeneration produces. When the three mappings are read and every text
  that is centred has display length at most 28, it returns normally and the lore
  is \<open>regeneratedLore\<close>: every line that is not a header is its text after
  \<open>floor((W - len) / 2 + 0.5) + 3\<close> spaces, and the headers \<open>Enchantments\<close> and
  \<open>Effects\<close> come after \<open>floor((W - len) / 2) + 1\<close> spaces; \<open>W\<close> is the length of
  \<open>Has Custom Properties\<close>, 21. A longer text makes the number of spaces negative,
  at which \<open>repeat\<close> throws.
\<close>

lemma updateLore_lines:
  assumes "getCustomEnchantments d = Inr enchantments"
    and "getCustomLore d = Inr customLore"
    and "getEffects d = Inr effects"
    and "list_all (fits T) (centeredTexts T customLore enchantments effects)"
  shows "fst (updateLore T d) = Inr ()
       \<and> getLore (snd (updateLore T d)) = regeneratedLore T customLore enchantments effects"
  by (simp add: updateLore_ok [OF assms] regenerated_frame getLore_def)

lemma updateLore_lines_statsItem:
  "fst (updateLore demoTables statsItem) = Inr ()
   \<and> getLore (snd (updateLore demoTables statsItem))
       = [categoryHeader demoTables ''Stats'', centeredLine demoTables ''a'',
          centeredLine demoTables ''b'', headerLine demoTables ''Enchantments'']
   \<and> centeredLine demoTables ''a'' = replicate 13 CHR '' '' @ ''a''
   \<and> headerLine demoTables ''Enchantments''
       = replicate 5 CHR '' '' @ [sect, CHR ''l''] @ ''Enchantments'' @ [sect, CHR ''r'']"
proof -
  have f: "list_all (fits demoTables)
             (centeredTexts demoTables [(''Stats'', Lines [''a'', ''b''])] [] [])"
    by code_simp
  have l: "centeredLine demoTables ''a'' = replicate 13 CHR '' '' @ ''a''"
    "headerLine demoTables ''Enchantments''
       = replicate 5 CHR '' '' @ [sect, CHR ''l''] @ ''Enchantments'' @ [sect, CHR ''r'']"
    by code_simp+
  have "regeneratedLore demoTables [(''Stats'', Lines [''a'', ''b''])] [] []
          = [categoryHeader demoTables ''Stats'', centeredLine demoTables ''a'',
             centeredLine demoTables ''b'', headerLine demoTables ''Enchantments'']"
    by (simp add: regeneratedLore_def)
  then show ?thesis
    using updateLore_lines [OF statsItem_reads f] l
    by simp
qed

lemma longItem_throws:
  "length (removeFormat demoTables longLine) = 29
   \<and> fst (updateLore demoTables longItem) = Inl RangeError"
proof -
  have f: "\<not> list_all (fits demoTables) (centeredTexts demoTables [(longLine, Line longLine)] [] [])"
    "length (removeFormat demoTables longLine) = 29"
    by code_simp+
  show ?thesis
    using updateLore_fail [OF longItem_reads f(1)] f(2) by simp
qed

text \<open>
  C5 fails on the code, for the header of a category. The source repeats the space
  \<open>Math.floor(longestText.length / 2 + 0.5) + 3\<close> times before it: the length of
  the header is not subtracted, as it is in every other line of the block, and the
  offset is that of the lines that are not headers. On the custom lore
  \<open>{ "Stats": ["a", "b"] }\<close> the first line of the lore is the header \<open>Stats\<close>, of
  display length 5, after 14 spaces; the rule of the headers, which the headers
  \<open>Enchantments\<close> and \<open>Effects\<close> follow, gives \<open>floor((21 - 5) / 2) + 1\<close>, 9 spaces.
\<close>

theorem category_header_not_centred:
  "fst (updateLore demoTables statsItem) = Inr ()
   \<and> getLore (snd (updateLore demoTables statsItem)) ! 0
     = replicate 14 CHR '' '' @ [sect, CHR ''l''] @ ''Stats'' @ [sect, CHR ''r'']
   \<and> headerLine demoTables ''Stats''
     = replicate 9 CHR '' '' @ [sect, CHR ''l''] @ ''Stats'' @ [sect, CHR ''r'']
   \<and> getLore (snd (updateLore demoTables statsItem)) ! 0 \<noteq> headerLine demoTables ''Stats''
   \<and> length (removeFormat demoTables ([sect, CHR ''l''] @ ''Stats'' @ [sect, CHR ''r''])) = 5
   \<and> length (removeFormat demoTables longestText) = 21
   \<and> nat (\<lfloor>(of_int (21 - 5) :: rat) / 2\<rfloor> + 1) = 9"
  by code_simp

subsection \<open>Which mutators regenerate the lore\<close>






subsection \<open>The key of an effect\<close>

lemma addEffect_stores:
  assumes "getEffects d = Inr effects"
  shows "getEffects (snd (addEffect e d)) = Inr (setProperty (effect e) e effects)"
proof -
  have "objectKeys (map fst (setProperty (effect e) e effects))"
    using getMapping_keys [of decEffect "''effects''" d effects] assms
    by (simp add: getEffects_def objectKeys_setProperty)
  then show ?thesis
    unfolding addEffect_def setEffects_def
    by (simp add: bind_read [of getEffects d effects] assms getEffects_set)
qed

text \<open>
  C6 fails on the code: \<open>addEffect\<close> stores the descriptor under its field
  \<open>effect\<close>, not under its name. The descriptor below has the name \<open>speed\<close> and the
  effect \<open>swiftness\<close>: afterwards the mapping has the one key \<open>swiftness\<close>, nothing
  under \<open>speed\<close>, and \<open>removeEffect\<close> of \<open>speed\<close> removes nothing.
\<close>

theorem addEffect_keyed_by_effect_field:
  "ItemEffectDataT.name swiftness = ''speed''
   \<and> getEffects (snd (addEffect swiftness scenario)) = Inr [(''swiftness'', swiftness)]
   \<and> map_of [(''swiftness'', swiftness)] ''speed'' = None
   \<and> getEffects (snd (removeEffect ''speed'' (snd (addEffect swiftness scenario))))
       = Inr [(''swiftness'', swiftness)]"
  by code_simp

end
